theory Spec2Isabelle
  imports Main "HOL-Library.Word" "HOL-Library.Signed_Division"
begin

unbundle bit_operations_syntax

section \<open>Characters\<close>

text \<open>
  The reader works on bytes (\<open>char\<close> in C++, \<^typ>\<open>char\<close> here). A C string is a
  \<^typ>\<open>string\<close>: the bytes in memory from the pointer on. The end of the list and the
  first \<open>NUL\<close> byte both stand for the terminator, so that every function below reads a
  list exactly as the C++ reads the memory it points to.
\<close>

definition NUL :: char where
  "NUL = CHR 0x00"

definition is_digit :: "char \<Rightarrow> bool" where
  "is_digit c = (48 \<le> (of_char c :: nat) \<and> (of_char c :: nat) \<le> 57)"

definition digit_of :: "char \<Rightarrow> int" where
  "digit_of c = int (of_char c) - 48"

text \<open>\<open>c_str s\<close> is what \<open>std::string(p)\<close> copies from a \<open>char *\<close>.\<close>

definition c_str :: "string \<Rightarrow> string" where
  "c_str s = takeWhile (\<lambda>c. c \<noteq> NUL) s"

section \<open>Errors\<close>

text \<open>
  \<open>io::error::error\<close> and its subclasses. The subclass is the \<open>kind\<close>; the fields carry
  the names of their getters. \<open>cannot_open_file\<close> belongs to opening a path in the file
  system, which is outside this development: readers are built from a byte source.
\<close>

datatype error_kind =
    internal_error
  | line_length_limit_exceeded
  | extra_column_in_header
  | missing_column_in_header
  | duplicated_column_in_header
  | header_missing
  | too_few_columns
  | too_many_columns
  | escaped_string_not_closed
  | integer_must_be_positive
  | no_digit
  | integer_overflow
  | integer_underflow
  | invalid_single_character

record error =
  kind :: error_kind
  get_error :: string
  get_file_name :: string
  get_column_name :: string
  get_column_content :: string
  get_file_line :: int
  get_errno :: int

text \<open>\<open>std::make_shared<E>()\<close> value-initialises: empty strings and zero integers.\<close>

definition make_shared :: "error_kind \<Rightarrow> error" where
  "make_shared k =
     \<lparr>kind = k, get_error = [], get_file_name = [], get_column_name = [],
      get_column_content = [], get_file_line = 0, get_errno = 0\<rparr>"

definition set_error :: "string \<Rightarrow> error \<Rightarrow> error" where
  "set_error m e = e\<lparr>get_error := m\<rparr>"

definition set_file_name :: "string \<Rightarrow> error \<Rightarrow> error" where
  "set_file_name n e = e\<lparr>get_file_name := n\<rparr>"

definition set_file_line :: "int \<Rightarrow> error \<Rightarrow> error" where
  "set_file_line n e = e\<lparr>get_file_line := n\<rparr>"

definition set_column_name :: "string \<Rightarrow> error \<Rightarrow> error" where
  "set_column_name n e = e\<lparr>get_column_name := n\<rparr>"

definition set_column_content :: "string \<Rightarrow> error \<Rightarrow> error" where
  "set_column_content n e = e\<lparr>get_column_content := n\<rparr>"

fun string_of_nat :: "nat \<Rightarrow> string" where
  "string_of_nat n =
     (if n < 10 then [char_of (48 + n)]
      else string_of_nat (n div 10) @ [char_of (48 + n mod 10)])"

declare string_of_nat.simps [simp del]

definition string_of_int :: "int \<Rightarrow> string" where
  "string_of_int i = (if i < 0 then CHR ''-'' # string_of_nat (nat (- i)) else string_of_nat (nat i))"

text \<open>The stream output of every \<open>format_error_message\<close> override.\<close>

definition format_error_message :: "error \<Rightarrow> error" where
  "format_error_message e =
     (case kind e of
        internal_error \<Rightarrow> e
      | line_length_limit_exceeded \<Rightarrow> set_error
          (''Line number '' @ string_of_int (get_file_line e) @ '' in file \"'' @ get_file_name e
            @ ''\" exceeds the maximum length of 2^24-1.'') e
      | extra_column_in_header \<Rightarrow> set_error
          (''Extra column \"'' @ get_column_name e @ ''\" in header of file \"''
            @ get_file_name e @ ''\"'') e
      | missing_column_in_header \<Rightarrow> set_error
          (''Missing column \"'' @ get_column_name e @ ''\" in header of file \"''
            @ get_file_name e @ ''\"'') e
      | duplicated_column_in_header \<Rightarrow> set_error
          (''Duplicated column \"'' @ get_column_name e @ ''\" in header of file \"''
            @ get_file_name e @ ''\"'') e
      | header_missing \<Rightarrow> set_error
          (''Header missing in file \"'' @ get_file_name e @ ''\"'') e
      | too_few_columns \<Rightarrow> set_error
          (''Too few columns in line '' @ string_of_int (get_file_line e) @ '' in file \"''
            @ get_file_name e @ ''\"'') e
      | too_many_columns \<Rightarrow> set_error
          (''Too many columns in line '' @ string_of_int (get_file_line e) @ '' in file \"''
            @ get_file_name e @ ''\"'') e
      | escaped_string_not_closed \<Rightarrow> set_error
          (''Escaped string was not closed in line '' @ string_of_int (get_file_line e)
            @ '' in file '' @ get_file_name e) e
      | integer_must_be_positive \<Rightarrow> set_error
          (''The integer '' @ get_column_content e @ '' must be positive or 0 in column ''
            @ get_column_name e @ '' in file '' @ get_file_name e @ '' in line ''
            @ string_of_int (get_file_line e)) e
      | no_digit \<Rightarrow> set_error
          (''The integer '' @ get_column_content e @ '' contains an invalid digit in column ''
            @ get_column_name e @ '' in file '' @ get_file_name e @ '' in line ''
            @ string_of_int (get_file_line e)) e
      | integer_overflow \<Rightarrow> set_error
          (''The integer '' @ get_column_content e @ '' overflows in column ''
            @ get_column_name e @ '' in file '' @ get_file_name e @ '' in line ''
            @ string_of_int (get_file_line e)) e
      | integer_underflow \<Rightarrow> set_error
          (''The integer '' @ get_column_content e @ '' underflows in column ''
            @ get_column_name e @ '' in file '' @ string_of_int (get_file_line e) @ '' in line ''
            @ string_of_int (get_file_line e)) e
      | invalid_single_character \<Rightarrow> set_error
          (''The content '' @ get_column_content e @ '' of column '' @ get_column_name e
            @ '' in file '' @ get_file_name e @ '' in line '' @ string_of_int (get_file_line e)
            @ '' is not a single character.)'') e)"

section \<open>Policies\<close>

text \<open>
  The template parameters of \<open>CSVReader\<close> become values: \<open>trim_chars<c...>\<close> is its list
  of characters, the quote and overflow policies are datatypes.
\<close>

primrec is_trim_char :: "char \<Rightarrow> char list \<Rightarrow> bool" where
  "is_trim_char c [] = False"
| "is_trim_char c (trim_char # other_trim_chars) =
     (c = trim_char \<or> is_trim_char c other_trim_chars)"

text \<open>
  \<open>trim_chars::trim\<close> moves \<open>str_begin\<close> right and \<open>str_end\<close> left over trim characters
  and writes the terminator at the new end: the result is the slice between the two.
\<close>

definition trim :: "char list \<Rightarrow> string \<Rightarrow> string" where
  "trim trim_char_list s =
     rev (dropWhile (\<lambda>c. is_trim_char c trim_char_list)
       (rev (dropWhile (\<lambda>c. is_trim_char c trim_char_list) s)))"

datatype quote_policy =
    no_quote_escape char
  | double_quote_escape char char

datatype overflow_policy = ignore_overflow | set_to_max_on_overflow

text \<open>\<open>std::numeric_limits<T>\<close> of the integer type \<open>T\<close> of an output variable.\<close>

record numeric_limits =
  limits_min :: int
  limits_max :: int

definition unsigned_limits :: "nat \<Rightarrow> numeric_limits" where
  "unsigned_limits w = \<lparr>limits_min = 0, limits_max = 2 ^ w - 1\<rparr>"

definition signed_limits :: "nat \<Rightarrow> numeric_limits" where
  "signed_limits w = \<lparr>limits_min = - (2 ^ (w - 1)), limits_max = 2 ^ (w - 1) - 1\<rparr>"

fun on_overflow :: "overflow_policy \<Rightarrow> numeric_limits \<Rightarrow> int \<Rightarrow> int" where
  "on_overflow ignore_overflow lim x = x"
| "on_overflow set_to_max_on_overflow lim x = limits_max lim"

fun on_underflow :: "overflow_policy \<Rightarrow> numeric_limits \<Rightarrow> int \<Rightarrow> int" where
  "on_underflow ignore_overflow lim x = x"
| "on_underflow set_to_max_on_overflow lim x = limits_min lim"

subsection \<open>Unescaping\<close>

text \<open>
  The copy loop of \<open>double_quote_escape::unescape\<close> over the slice between the outer
  quotes: of two adjacent quotes the first is skipped. \<open>out\<close> never overtakes \<open>in\<close>, so
  the in-place copy reads only bytes it has not yet written.
\<close>

fun unescape_copy :: "char \<Rightarrow> string \<Rightarrow> string" where
  "unescape_copy quote [] = []"
| "unescape_copy quote [c] = [c]"
| "unescape_copy quote (c # d # rest) =
     (if c = quote \<and> d = quote then d # unescape_copy quote rest
      else c # unescape_copy quote (d # rest))"

fun unescape :: "quote_policy \<Rightarrow> string \<Rightarrow> string" where
  "unescape (no_quote_escape sep) col = col"
| "unescape (double_quote_escape sep quote) col =
     (if length col \<ge> 2 then
        (if hd col = quote \<and> last col = quote
         then unescape_copy quote (butlast (tl col))
         else col)
      else col)"

section \<open>Field parsers\<close>

text \<open>
  Every \<open>detail::parse\<close> overload takes the column, the output variable and the shared
  error slot (\<open>None\<close> is the empty \<open>shared_ptr\<close>) and returns its \<open>bool\<close>, the output
  variable and the slot.
\<close>

definition parse_char :: "string \<Rightarrow> char \<Rightarrow> error option \<Rightarrow> bool \<times> char \<times> error option" where
  "parse_char col x err =
     (if err \<noteq> None then (False, x, err)
      else case col of
        [] \<Rightarrow> (False, x, Some (make_shared invalid_single_character))
      | c # col' \<Rightarrow>
          if c = NUL then (False, x, Some (make_shared invalid_single_character))
          else if col' \<noteq> [] \<and> hd col' \<noteq> NUL
            then (False, c, Some (make_shared invalid_single_character))
          else (True, c, err))"

text \<open>The \<open>std::string\<close>, \<open>const char *\<close> and \<open>char *\<close> overloads: \<open>(void)err; x = col;\<close>.\<close>

definition parse_string :: "string \<Rightarrow> string \<Rightarrow> error option \<Rightarrow> bool \<times> string \<times> error option" where
  "parse_string col x err = (True, c_str col, err)"

fun parse_unsigned_loop ::
  "overflow_policy \<Rightarrow> numeric_limits \<Rightarrow> string \<Rightarrow> int \<Rightarrow> bool \<times> int \<times> error option" where
  "parse_unsigned_loop pol lim [] x = (True, x, None)"
| "parse_unsigned_loop pol lim (c # col) x =
     (if c = NUL then (True, x, None)
      else if is_digit c then
        (let y = digit_of c in
         if x > (limits_max lim - y) div 10 then (True, on_overflow pol lim x, None)
         else parse_unsigned_loop pol lim col (10 * x + y))
      else (False, x, Some (make_shared no_digit)))"

definition parse_unsigned_integer ::
  "overflow_policy \<Rightarrow> numeric_limits \<Rightarrow> string \<Rightarrow> int \<Rightarrow> error option
     \<Rightarrow> bool \<times> int \<times> error option" where
  "parse_unsigned_integer pol lim col x err =
     (if err \<noteq> None then (False, x, err)
      else if col \<noteq> [] \<and> hd col = CHR ''-''
        then (False, x, Some (make_shared integer_must_be_positive))
      else parse_unsigned_loop pol lim col 0)"

text \<open>
  The negative branch of \<open>parse_signed_integer\<close>. C++ division truncates towards zero:
  \<open>sdiv\<close>.
\<close>

fun parse_negative_loop ::
  "overflow_policy \<Rightarrow> numeric_limits \<Rightarrow> string \<Rightarrow> int \<Rightarrow> bool \<times> int \<times> error option" where
  "parse_negative_loop pol lim [] x = (True, x, None)"
| "parse_negative_loop pol lim (c # col) x =
     (if c = NUL then (True, x, None)
      else if is_digit c then
        (let y = digit_of c in
         if x < (limits_min lim + y) sdiv 10 then (True, on_underflow pol lim x, None)
         else parse_negative_loop pol lim col (10 * x - y))
      else (False, x, Some (make_shared no_digit)))"

definition parse_signed_integer ::
  "overflow_policy \<Rightarrow> numeric_limits \<Rightarrow> string \<Rightarrow> int \<Rightarrow> error option
     \<Rightarrow> bool \<times> int \<times> error option" where
  "parse_signed_integer pol lim col x err =
     (if err \<noteq> None then (False, x, err)
      else if col \<noteq> [] \<and> hd col = CHR ''-'' then parse_negative_loop pol lim (tl col) 0
      else if col \<noteq> [] \<and> hd col = CHR ''+'' then parse_unsigned_integer pol lim (tl col) x err
      else parse_unsigned_integer pol lim col x err)"


subsection \<open>Floating point\<close>

text \<open>
  \<open>parse_float<T>\<close> over an abstract floating type: the arithmetic of \<open>T\<close> is a
  parameter, the control flow is the source's. The exponent is an \<open>int\<close> (32 bits) read
  with the clamping policy; \<open>e = -e\<close> wraps at \<open>INT_MIN\<close>, and the squaring loop then
  never reaches 1, so the loop is a partial function and \<open>None\<close> means no return.
\<close>

record 'f float_ops =
  f_of_int :: "int \<Rightarrow> 'f"
  f_tenth :: "'f"
  f_add :: "'f \<Rightarrow> 'f \<Rightarrow> 'f"
  f_mul :: "'f \<Rightarrow> 'f \<Rightarrow> 'f"
  f_div :: "'f \<Rightarrow> 'f \<Rightarrow> 'f"
  f_neg :: "'f \<Rightarrow> 'f"

fun float_integer_part :: "'f float_ops \<Rightarrow> string \<Rightarrow> 'f \<Rightarrow> 'f \<times> string" where
  "float_integer_part ops [] x = (x, [])"
| "float_integer_part ops (c # col) x =
     (if is_digit c
      then float_integer_part ops col
             (f_add ops (f_mul ops x (f_of_int ops 10)) (f_of_int ops (digit_of c)))
      else (x, c # col))"

fun float_fraction_part :: "'f float_ops \<Rightarrow> string \<Rightarrow> 'f \<Rightarrow> 'f \<Rightarrow> 'f \<times> string" where
  "float_fraction_part ops [] pos x = (x, [])"
| "float_fraction_part ops (c # col) pos x =
     (if is_digit c
      then (let pos' = f_div ops pos (f_of_int ops 10)
            in float_fraction_part ops col pos'
                 (f_add ops x (f_mul ops (f_of_int ops (digit_of c)) pos')))
      else (x, c # col))"

partial_function (option) float_exponent_loop ::
  "'f float_ops \<Rightarrow> 'f \<Rightarrow> 'f \<Rightarrow> int \<Rightarrow> ('f \<times> 'f) option" where
  "float_exponent_loop ops base x e =
     (if e = 1 then Some (base, x)
      else if even e then float_exponent_loop ops (f_mul ops base base) x (e div 2)
      else float_exponent_loop ops base (f_mul ops x base) (e - 1))"

definition negate_int32 :: "int \<Rightarrow> int" where
  "negate_int32 e = (if e = - (2 ^ 31) then e else - e)"

definition float_apply_exponent :: "'f float_ops \<Rightarrow> 'f \<Rightarrow> int \<Rightarrow> 'f option" where
  "float_apply_exponent ops x e =
     (if e \<noteq> 0 then
        (let (base, e') = (if e < 0 then (f_tenth ops, negate_int32 e) else (f_of_int ops 10, e))
         in case float_exponent_loop ops base x e' of
              None \<Rightarrow> None
            | Some (base', x') \<Rightarrow> Some (f_mul ops x' base'))
      else Some x)"

definition parse_float ::
  "'f float_ops \<Rightarrow> string \<Rightarrow> 'f \<Rightarrow> error option \<Rightarrow> (bool \<times> 'f \<times> error option) option" where
  "parse_float ops col x err =
     (if err \<noteq> None then Some (False, x, err)
      else
        (let is_neg = (col \<noteq> [] \<and> hd col = CHR ''-'');
             col1 = (if col \<noteq> [] \<and> (hd col = CHR ''-'' \<or> hd col = CHR ''+'') then tl col else col);
             (x1, col2) = float_integer_part ops col1 (f_of_int ops 0);
             (x2, col3) =
               (if col2 \<noteq> [] \<and> (hd col2 = CHR ''.'' \<or> hd col2 = CHR '','')
                then float_fraction_part ops (tl col2) (f_of_int ops 1) x1
                else (x1, col2))
         in if col3 \<noteq> [] \<and> (hd col3 = CHR ''e'' \<or> hd col3 = CHR ''E'') then
              (case parse_signed_integer set_to_max_on_overflow (signed_limits 32) (tl col3) 0 err of
                 (False, e, err') \<Rightarrow> Some (False, x2, err')
               | (True, e, err') \<Rightarrow>
                   (case float_apply_exponent ops x2 e of
                      None \<Rightarrow> None
                    | Some x3 \<Rightarrow> Some (True, if is_neg then f_neg ops x3 else x3, err')))
            else if col3 \<noteq> [] \<and> hd col3 \<noteq> NUL then Some (False, x2, Some (make_shared no_digit))
            else Some (True, if is_neg then f_neg ops x2 else x2, err)))"

subsection \<open>Output variables\<close>

text \<open>
  An output variable of \<open>read_row\<close> with its C++ type: \<open>char\<close>; \<open>std::string\<close>,
  \<open>char *\<close> or \<open>const char *\<close> (the string they hold or point to); an unsigned or a
  signed integer type with its limits. Overload resolution is the case distinction of
  \<open>parse\<close>. Floating-point variables are not part of a row here.
\<close>

datatype cell =
    Char_cell char
  | String_cell string
  | Unsigned_cell numeric_limits int
  | Signed_cell numeric_limits int

fun parse :: "overflow_policy \<Rightarrow> string \<Rightarrow> cell \<Rightarrow> error option \<Rightarrow> bool \<times> cell \<times> error option" where
  "parse pol col (Char_cell x) err =
     (case parse_char col x err of (ok, x', err') \<Rightarrow> (ok, Char_cell x', err'))"
| "parse pol col (String_cell x) err =
     (case parse_string col x err of (ok, x', err') \<Rightarrow> (ok, String_cell x', err'))"
| "parse pol col (Unsigned_cell lim x) err =
     (case parse_unsigned_integer pol lim col x err of (ok, x', err') \<Rightarrow> (ok, Unsigned_cell lim x', err'))"
| "parse pol col (Signed_cell lim x) err =
     (case parse_signed_integer pol lim col x err of (ok, x', err') \<Rightarrow> (ok, Signed_cell lim x', err'))"

section \<open>Tokenizer\<close>

text \<open>
  \<open>find_next_column_end\<close> returns how far the column end is from the column begin, or
  \<open>None\<close> where the source makes an \<open>escaped_string_not_closed\<close> error. For the quoting
  policy the three functions are the three places of the nested loops: the outer loop,
  inside a quoted run, and just behind a closing quote. Separator and quote are not
  \<open>NUL\<close>.
\<close>

fun dq_outside :: "char \<Rightarrow> char \<Rightarrow> string \<Rightarrow> nat option"
  and dq_inside :: "char \<Rightarrow> char \<Rightarrow> string \<Rightarrow> nat option"
  and dq_closed :: "char \<Rightarrow> char \<Rightarrow> string \<Rightarrow> nat option" where
  "dq_outside sep quote [] = Some 0"
| "dq_outside sep quote (c # cs) =
     (if c = sep \<or> c = NUL then Some 0
      else if c \<noteq> quote then map_option Suc (dq_outside sep quote cs)
      else map_option Suc (dq_inside sep quote cs))"
| "dq_inside sep quote [] = None"
| "dq_inside sep quote (c # cs) =
     (if c = quote then map_option Suc (dq_closed sep quote cs)
      else if c = NUL then None
      else map_option Suc (dq_inside sep quote cs))"
| "dq_closed sep quote [] = Some 0"
| "dq_closed sep quote (c # cs) =
     (if c = quote then map_option Suc (dq_inside sep quote cs)
      else dq_outside sep quote (c # cs))"

fun find_next_column_end :: "quote_policy \<Rightarrow> string \<Rightarrow> nat option" where
  "find_next_column_end (no_quote_escape sep) col =
     Some (length (takeWhile (\<lambda>c. c \<noteq> sep \<and> c \<noteq> NUL) col))"
| "find_next_column_end (double_quote_escape sep quote) col = dq_outside sep quote col"

text \<open>
  \<open>chop_next_column\<close>: the \<open>line\<close> pointer is \<open>None\<close> for \<open>nullptr\<close>; the column is the
  slice from \<open>col_begin\<close> to \<open>col_end\<close>, and the rest of the line starts behind the
  separator that was overwritten by the terminator.
\<close>

definition chop_next_column ::
  "quote_policy \<Rightarrow> string option \<Rightarrow> error option \<Rightarrow> bool \<times> string option \<times> string \<times> error option" where
  "chop_next_column qp line err =
     (if err \<noteq> None then (False, line, [], err)
      else case line of
        None \<Rightarrow> (False, line, [],
          Some (set_error ''Internal error: line is null in chop_next_column'' (make_shared internal_error)))
      | Some l \<Rightarrow>
          (case find_next_column_end qp l of
             None \<Rightarrow> (False, line, [], Some (make_shared escaped_string_not_closed))
           | Some n \<Rightarrow>
               if n \<ge> length l \<or> l ! n = NUL then (True, None, take n l, None)
               else (True, Some (drop (Suc n) l), take n l, None)))"

text \<open>
  \<open>parse_line\<close>: \<open>sorted_col\<close> is the reader's \<open>row\<close> array, each entry \<open>nullptr\<close> or
  the column it points to; \<open>col_order\<close> holds target indices or \<open>-1\<close>.
\<close>

fun parse_line_loop ::
  "char list \<Rightarrow> quote_policy \<Rightarrow> int list \<Rightarrow> string option \<Rightarrow> string option list
     \<Rightarrow> bool \<times> string option list \<times> error option" where
  "parse_line_loop tp qp [] line sorted_col =
     (if line \<noteq> None then (False, sorted_col, Some (make_shared too_many_columns))
      else (True, sorted_col, None))"
| "parse_line_loop tp qp (i # col_order) line sorted_col =
     (if line = None then (False, sorted_col, Some (make_shared too_few_columns))
      else case chop_next_column qp line None of
        (False, line', col, err') \<Rightarrow> (False, sorted_col, err')
      | (True, line', col, err') \<Rightarrow>
          parse_line_loop tp qp col_order line'
            (if i \<noteq> - 1 then sorted_col[nat i := Some (unescape qp (trim tp col))]
             else sorted_col))"

definition parse_line ::
  "char list \<Rightarrow> quote_policy \<Rightarrow> string \<Rightarrow> string option list \<Rightarrow> int list \<Rightarrow> error option
     \<Rightarrow> bool \<times> string option list \<times> error option" where
  "parse_line tp qp line sorted_col col_order err =
     (if err \<noteq> None then (False, sorted_col, err)
      else parse_line_loop tp qp col_order (Some line) sorted_col)"


section \<open>Header line\<close>

type_synonym ignore_column = nat

definition ignore_no_column :: ignore_column where
  "ignore_no_column = 0"

definition ignore_extra_column :: ignore_column where
  "ignore_extra_column = 1"

definition ignore_missing_column :: ignore_column where
  "ignore_missing_column = 2"

text \<open>
  The inner \<open>for\<close> loop of \<open>parse_header_line\<close> stops at the first declared name equal
  to the column; the last loop stops at the first declared name not found.
\<close>

primrec find_col_name :: "string \<Rightarrow> string list \<Rightarrow> nat \<Rightarrow> nat option" where
  "find_col_name col [] i = None"
| "find_col_name col (name # col_name) i =
     (if col = name then Some i else find_col_name col col_name (Suc i))"

primrec find_not_found :: "bool list \<Rightarrow> nat \<Rightarrow> nat option" where
  "find_not_found [] i = None"
| "find_not_found (f # found) i = (if \<not> f then Some i else find_not_found found (Suc i))"

lemma chop_next_column_shorter:
  "chop_next_column qp (Some l) None = (True, Some l', col, err') \<Longrightarrow> length l' < length l"
  by (auto simp: chop_next_column_def split: option.splits if_splits)

function parse_header_loop ::
  "char list \<Rightarrow> quote_policy \<Rightarrow> string list \<Rightarrow> ignore_column \<Rightarrow> string option \<Rightarrow> int list
     \<Rightarrow> bool list \<Rightarrow> bool \<times> int list \<times> error option" where
  "parse_header_loop tp qp col_name ignore_policy None col_order found =
     (if ignore_policy AND ignore_missing_column = 0 then
        (case find_not_found found 0 of
           Some i \<Rightarrow> (False, col_order,
             Some (set_column_name (c_str (col_name ! i)) (make_shared missing_column_in_header)))
         | None \<Rightarrow> (True, col_order, None))
      else (True, col_order, None))"
| "parse_header_loop tp qp col_name ignore_policy (Some l) col_order found =
     (case chop_next_column qp (Some l) None of
        (False, line', col, err') \<Rightarrow> (False, col_order, err')
      | (True, line', col, err') \<Rightarrow>
          (let col_begin = unescape qp (trim tp col) in
           case find_col_name col_begin col_name 0 of
             Some i \<Rightarrow>
               if found ! i then
                 (False, col_order,
                  Some (set_column_name col_begin (make_shared duplicated_column_in_header)))
               else parse_header_loop tp qp col_name ignore_policy line'
                      (col_order @ [int i]) (found[i := True])
           | None \<Rightarrow>
               if ignore_policy AND ignore_extra_column \<noteq> 0
               then parse_header_loop tp qp col_name ignore_policy line' (col_order @ [- 1]) found
               else (False, col_order,
                     Some (set_column_name col_begin (make_shared extra_column_in_header)))))"
  by pat_completeness auto
termination
proof (relation "measure (\<lambda>(tp, qp, col_name, ignore_policy, line, col_order, found).
                    case line of None \<Rightarrow> 0 | Some l \<Rightarrow> Suc (length l))")
  show "wf (measure (\<lambda>(tp, qp, col_name, ignore_policy, line, col_order, found).
                    case line of None \<Rightarrow> 0 | Some l \<Rightarrow> Suc (length l)))"
    by simp
qed (auto split: option.splits dest: chop_next_column_shorter [OF sym])

text \<open>\<open>col_order.clear()\<close> comes first, so a failed call leaves the part it has built.\<close>

definition parse_header_line ::
  "nat \<Rightarrow> char list \<Rightarrow> quote_policy \<Rightarrow> string \<Rightarrow> int list \<Rightarrow> string list \<Rightarrow> ignore_column
     \<Rightarrow> error option \<Rightarrow> bool \<times> int list \<times> error option" where
  "parse_header_line column_count tp qp line col_order col_name ignore_policy err =
     (if err \<noteq> None then (False, col_order, err)
      else parse_header_loop tp qp col_name ignore_policy (Some line) []
             (replicate column_count False))"

section \<open>LineReader\<close>

text \<open>
  The buffer is the array of \<open>3 * block_len\<close> bytes, read and written by offset;
  \<open>new char[]\<close> leaves its content indeterminate, so the initial content is a parameter.
  \<open>read\<close> is \<open>NonOwningStringByteSource::read\<close> on the bytes not yet delivered: it
  copies as many bytes as asked for, fewer only when the data ends (a file read with
  \<open>fread\<close> and a stream read with \<open>istream::read\<close> deliver the same bytes).
\<close>

definition block_len :: int where
  "block_len = 2 ^ 20"

definition read :: "string \<Rightarrow> (int \<Rightarrow> char) \<Rightarrow> int \<Rightarrow> int \<Rightarrow> int \<times> (int \<Rightarrow> char) \<times> string" where
  "read src buf at desired_byte_count =
     (let to_copy = take (nat desired_byte_count) src
      in (int (length to_copy),
          (\<lambda>i. if at \<le> i \<and> i < at + int (length to_copy) then to_copy ! nat (i - at) else buf i),
          drop (nat desired_byte_count) src))"

definition memcpy :: "(int \<Rightarrow> char) \<Rightarrow> int \<Rightarrow> int \<Rightarrow> int \<Rightarrow> (int \<Rightarrow> char)" where
  "memcpy buf dst src n = (\<lambda>i. if dst \<le> i \<and> i < dst + n then buf (src + (i - dst)) else buf i)"

text \<open>
  \<open>ByteSourceBase\<close> is the interface with the one virtual method \<open>read\<close>, which is to
  write at most as many bytes as asked for and to return how many it wrote, \<open>0\<close> when
  the data has run out. Two implementations: the in-memory source above, and a source
  written by the client against the interface, whose data arrives in pieces, a call of
  \<open>read\<close> delivering bytes of the first piece only (as many as asked for, if the piece
  has them): with no piece left it returns \<open>0\<close>, otherwise it copies
  \<open>min(size, length of the first piece)\<close> bytes, drops them from the piece, drops the
  piece when it is empty, and returns their number.
\<close>

datatype ByteSourceBase =
    NonOwningStringByteSource string
  | ClientByteSource "string list"

fun ByteSourceBase_read ::
  "ByteSourceBase \<Rightarrow> (int \<Rightarrow> char) \<Rightarrow> int \<Rightarrow> int \<Rightarrow> int \<times> (int \<Rightarrow> char) \<times> ByteSourceBase" where
  "ByteSourceBase_read (NonOwningStringByteSource str) buf at count =
     (case read str buf at count of
        (n, buf', str') \<Rightarrow> (n, buf', NonOwningStringByteSource str'))"
| "ByteSourceBase_read (ClientByteSource []) buf at count = (0, buf, ClientByteSource [])"
| "ByteSourceBase_read (ClientByteSource (piece # pieces)) buf at count =
     (case read piece buf at count of
        (n, buf', piece') \<Rightarrow>
          (n, buf', ClientByteSource (if piece' = [] then pieces else piece' # pieces)))"

record SynchronousReader =
  byte_source :: "ByteSourceBase option"
  read_buffer :: int
  desired_byte_count :: int

definition is_valid :: "SynchronousReader \<Rightarrow> bool" where
  "is_valid r = (byte_source r \<noteq> None)"

definition start_read :: "int \<Rightarrow> int \<Rightarrow> SynchronousReader \<Rightarrow> SynchronousReader" where
  "start_read arg_buffer arg_desired_byte_count r =
     r\<lparr>read_buffer := arg_buffer, desired_byte_count := arg_desired_byte_count\<rparr>"

definition finish_read ::
  "SynchronousReader \<Rightarrow> (int \<Rightarrow> char) \<Rightarrow> int \<times> (int \<Rightarrow> char) \<times> SynchronousReader" where
  "finish_read r buf =
     (case ByteSourceBase_read (the (byte_source r)) buf (read_buffer r) (desired_byte_count r) of
        (n, buf', src') \<Rightarrow> (n, buf', r\<lparr>byte_source := Some src'\<rparr>))"

record LineReader =
  buffer :: "int \<Rightarrow> char"
  reader :: SynchronousReader
  data_begin :: int
  data_end :: int
  file_name :: string
  file_line :: "32 word"

text \<open>\<open>strncpy\<close> into the array of 256 bytes, the last one set to the terminator.\<close>

definition truncate_file_name :: "string \<Rightarrow> string" where
  "truncate_file_name name = take 255 (c_str name)"

text \<open>
  The constructor that takes a byte source: \<open>set_file_name\<close>, then the method \<open>init\<close>.
  The source is not null.
\<close>

definition LineReader_new :: "(int \<Rightarrow> char) \<Rightarrow> string \<Rightarrow> ByteSourceBase \<Rightarrow> LineReader" where
  "LineReader_new uninitialized name src =
     (case ByteSourceBase_read src uninitialized 0 (2 * block_len) of
        (n, buf, src') \<Rightarrow>
          \<lparr>buffer = buf,
           reader =
             (if n = 2 * block_len
              then \<lparr>byte_source = Some src', read_buffer = 2 * block_len, desired_byte_count = block_len\<rparr>
              else \<lparr>byte_source = None, read_buffer = 0, desired_byte_count = 0\<rparr>),
           data_begin =
             (if n \<ge> 3 \<and> buf 0 = CHR 0xEF \<and> buf 1 = CHR 0xBB \<and> buf 2 = CHR 0xBF then 3 else 0),
           data_end = n,
           file_name = truncate_file_name name,
           file_line = 0\<rparr>)"

text \<open>
  The constructor that takes an in-memory range (\<open>data_begin\<close>, \<open>data_end\<close>): the same
  with a \<open>NonOwningStringByteSource\<close> over the range.
\<close>

definition init :: "(int \<Rightarrow> char) \<Rightarrow> string \<Rightarrow> string \<Rightarrow> LineReader" where
  "init uninitialized name src = LineReader_new uninitialized name (NonOwningStringByteSource src)"

text \<open>
  The scan for the newline. It starts at \<open>data_begin < data_end\<close> (the check before it
  returns otherwise), where \<open>line_end != data_end\<close> is \<open>line_end < data_end\<close>.
\<close>

function find_line_end :: "(int \<Rightarrow> char) \<Rightarrow> int \<Rightarrow> int \<Rightarrow> int" where
  "find_line_end buf line_end stop =
     (if line_end < stop \<and> buf line_end \<noteq> CHR 0x0A then find_line_end buf (line_end + 1) stop
      else line_end)"
  by pat_completeness auto
termination
  by (relation "measure (\<lambda>(buf, line_end, stop). nat (stop - line_end))") auto

declare find_line_end.simps [simp del]

definition shift_block :: "LineReader \<Rightarrow> LineReader" where
  "shift_block s =
     (let s1 = s\<lparr>buffer := memcpy (buffer s) 0 block_len block_len,
                 data_begin := data_begin s - block_len,
                 data_end := data_end s - block_len\<rparr>
      in if is_valid (reader s1) then
           (case finish_read (reader s1) (buffer s1) of
              (n, buf, r) \<Rightarrow>
                s1\<lparr>data_end := data_end s1 + n,
                   buffer := memcpy buf block_len (2 * block_len) block_len,
                   reader := start_read (2 * block_len) block_len r\<rparr>)
         else s1)"

definition next_line :: "LineReader \<Rightarrow> error option \<Rightarrow> int option \<times> LineReader \<times> error option" where
  "next_line s err =
     (if err \<noteq> None then (None, s, err)
      else if data_begin s = data_end s then (None, s, None)
      else
        (let s1 = s\<lparr>file_line := file_line s + 1\<rparr> in
         if data_begin s1 \<ge> data_end s1 then
           (None, s1, Some (set_error ''Internal error: data_begin >= data_end'' (make_shared internal_error)))
         else if data_end s1 > block_len * 2 then
           (None, s1, Some (set_error (''Internal error: data_end > block_len*2'' @ [CHR 0x0A])
                              (make_shared internal_error)))
         else
           (let s2 = (if data_begin s1 \<ge> block_len then shift_block s1 else s1);
                line_end = find_line_end (buffer s2) (data_begin s2) (data_end s2)
            in if line_end - data_begin s2 + 1 > block_len then
                 (None, s2,
                  Some (set_file_line (sint (file_line s2))
                         (set_file_name (file_name s2) (make_shared line_length_limit_exceeded))))
               else
                 (let s3 = (if line_end \<noteq> data_end s2 \<and> buffer s2 line_end = CHR 0x0A
                            then s2\<lparr>buffer := (buffer s2)(line_end := NUL)\<rparr>
                            else s2\<lparr>data_end := data_end s2 + 1,
                                    buffer := (buffer s2)(line_end := NUL)\<rparr>);
                      s4 = (if line_end \<noteq> data_begin s3 \<and> buffer s3 (line_end - 1) = CHR 0x0D
                            then s3\<lparr>buffer := (buffer s3)(line_end - 1 := NUL)\<rparr>
                            else s3)
                  in (Some (data_begin s4), s4\<lparr>data_begin := line_end + 1\<rparr>, None)))))"

text \<open>
  The C string a returned pointer points to: the bytes of the buffer from the pointer
  to the first \<open>NUL\<close>, the end of the array at the latest.
\<close>

function c_str_at :: "(int \<Rightarrow> char) \<Rightarrow> int \<Rightarrow> string" where
  "c_str_at buf p =
     (if p < 3 * block_len \<and> buf p \<noteq> NUL then buf p # c_str_at buf (p + 1) else [])"
  by pat_completeness auto
termination
  by (relation "measure (\<lambda>(buf, p). nat (3 * block_len - p))") auto

declare c_str_at.simps [simp del]


section \<open>CSVReader\<close>

subsection \<open>Comment policies\<close>

datatype comment_policy =
    no_comment
  | single_line_comment "char list"
  | empty_line_comment
  | single_and_empty_line_comment "char list"

primrec is_comment_start_char :: "char \<Rightarrow> char list \<Rightarrow> bool" where
  "is_comment_start_char c [] = False"
| "is_comment_start_char c (comment_start_char # other_comment_start_chars) =
     (c = comment_start_char \<or> is_comment_start_char c other_comment_start_chars)"

text \<open>\<open>*line\<close>: the first byte, the terminator for the empty string.\<close>

definition first_byte :: "string \<Rightarrow> char" where
  "first_byte line = (case line of [] \<Rightarrow> NUL | c # cs \<Rightarrow> c)"

fun is_empty_line :: "string \<Rightarrow> bool" where
  "is_empty_line [] = True"
| "is_empty_line (c # line) =
     (if c = NUL then True
      else if c = CHR '' '' \<or> c = CHR 0x09 then is_empty_line line
      else False)"

fun is_comment :: "comment_policy \<Rightarrow> string \<Rightarrow> bool" where
  "is_comment no_comment line = False"
| "is_comment (single_line_comment cs) line = is_comment_start_char (first_byte line) cs"
| "is_comment empty_line_comment line = is_empty_line line"
| "is_comment (single_and_empty_line_comment cs) line =
     (is_comment_start_char (first_byte line) cs \<or> is_empty_line line)"

subsection \<open>The reader\<close>

text \<open>
  The template parameters are fields that never change. \<open>in_reader\<close> is the member
  \<open>in\<close>; an entry of \<open>row\<close> is \<open>nullptr\<close> or the column it points to. The tokenizer
  writes only into the bytes of the line it was given, which \<open>next_line\<close> never reads
  again, so the buffer of \<open>in_reader\<close> is not updated for those writes.
\<close>

record CSVReader =
  in_reader :: LineReader
  row :: "string option list"
  column_names :: "string list"
  col_order :: "int list"
  column_count :: nat
  trim_policy :: "char list"
  quote_policy :: quote_policy
  overflow_policy :: overflow_policy
  comment_policy :: comment_policy

definition CSVReader_new ::
  "nat \<Rightarrow> char list \<Rightarrow> quote_policy \<Rightarrow> overflow_policy \<Rightarrow> comment_policy
     \<Rightarrow> (int \<Rightarrow> char) \<Rightarrow> string \<Rightarrow> string \<Rightarrow> CSVReader" where
  "CSVReader_new n tp qp op cp uninitialized name src =
     \<lparr>in_reader = init uninitialized name src,
      row = replicate n None,
      column_names = map (\<lambda>i. ''col'' @ string_of_nat i) [1 ..< Suc n],
      col_order = map int [0 ..< n],
      column_count = n,
      trim_policy = tp, quote_policy = qp, overflow_policy = op, comment_policy = cp\<rparr>"

text \<open>
  The constructor forwards its arguments to the constructor of \<open>in\<close>: above an in-memory
  range, here a byte source.
\<close>

definition CSVReader_of_source ::
  "nat \<Rightarrow> char list \<Rightarrow> quote_policy \<Rightarrow> overflow_policy \<Rightarrow> comment_policy
     \<Rightarrow> (int \<Rightarrow> char) \<Rightarrow> string \<Rightarrow> ByteSourceBase \<Rightarrow> CSVReader" where
  "CSVReader_of_source n tp qp op cp uninitialized name src =
     \<lparr>in_reader = LineReader_new uninitialized name src,
      row = replicate n None,
      column_names = map (\<lambda>i. ''col'' @ string_of_nat i) [1 ..< Suc n],
      col_order = map int [0 ..< n],
      column_count = n,
      trim_policy = tp, quote_policy = qp, overflow_policy = op, comment_policy = cp\<rparr>"

definition get_truncated_file_name :: "CSVReader \<Rightarrow> string" where
  "get_truncated_file_name r = file_name (in_reader r)"

definition get_file_line_of :: "CSVReader \<Rightarrow> 32 word" where
  "get_file_line_of r = file_line (in_reader r)"

text \<open>What every error branch of \<open>read_row\<close> does to the error in the slot.\<close>

definition locate_error :: "LineReader \<Rightarrow> error \<Rightarrow> error" where
  "locate_error s e =
     format_error_message (set_file_line (sint (file_line s)) (set_file_name (file_name s) e))"

text \<open>
  Each line that \<open>next_line\<close> hands out takes bytes from what is buffered or still in
  the source: the two \<open>do ... while (is_comment(line))\<close> loops end.
\<close>

fun remaining :: "ByteSourceBase \<Rightarrow> string" where
  "remaining (NonOwningStringByteSource str) = str"
| "remaining (ClientByteSource pieces) = concat pieces"

definition unread :: "LineReader \<Rightarrow> nat" where
  "unread s =
     nat (data_end s - data_begin s)
       + (case byte_source (reader s) of None \<Rightarrow> 0 | Some src \<Rightarrow> length (remaining src))"

lemma ByteSourceBase_read_count:
  "ByteSourceBase_read src buf at count = (n, buf', src') \<Longrightarrow>
   0 \<le> n \<and> n \<le> max 0 count \<and> length (remaining src) = nat n + length (remaining src')"
  by (induction src buf at count rule: ByteSourceBase_read.induct)
    (auto simp: read_def Let_def split: if_splits)

lemma find_line_end_bounds:
  "b \<le> e \<Longrightarrow> b \<le> find_line_end buf b e \<and> find_line_end buf b e \<le> e"
proof (induction buf b e rule: find_line_end.induct)
  case (1 buf line_end stop)
  then show ?case
    by (subst (1 2) find_line_end.simps) auto
qed

lemma find_line_end_stops:
  "b \<le> e \<Longrightarrow> find_line_end buf b e = e \<or> buf (find_line_end buf b e) = CHR 0x0A"
proof (induction buf b e rule: find_line_end.induct)
  case (1 buf line_end stop)
  then show ?case
    by (subst (1 2) find_line_end.simps) auto
qed

lemma unread_shift_block:
  "data_begin s \<le> data_end s \<Longrightarrow> unread (shift_block s) = unread s"
  by (auto simp: unread_def shift_block_def is_valid_def finish_read_def start_read_def
      Let_def split: option.splits prod.splits dest!: ByteSourceBase_read_count)

lemma shift_block_cursors:
  "data_begin s < data_end s \<Longrightarrow> data_begin (shift_block s) < data_end (shift_block s)"
  by (auto simp: shift_block_def is_valid_def finish_read_def start_read_def
      Let_def split: option.splits prod.splits dest!: ByteSourceBase_read_count)

lemma next_line_unread:
  assumes "next_line s err = (Some p, s', err')"
  shows "unread s' < unread s"
proof -
  from assms have e: "err = None" and ne: "data_begin s < data_end s"
    by (auto simp: next_line_def Let_def split: if_splits)
  define s1 where "s1 = s\<lparr>file_line := file_line s + 1\<rparr>"
  define s2 where "s2 = (if data_begin s1 \<ge> block_len then shift_block s1 else s1)"
  define le where "le = find_line_end (buffer s2) (data_begin s2) (data_end s2)"
  have u1: "unread s1 = unread s" and c1: "data_begin s1 < data_end s1"
    using ne by (simp_all add: s1_def unread_def)
  have u2: "unread s2 = unread s" and c2: "data_begin s2 < data_end s2"
    using u1 c1 by (auto simp: s2_def unread_shift_block shift_block_cursors)
  have b: "data_begin s2 \<le> le" "le \<le> data_end s2"
    using find_line_end_bounds [of "data_begin s2" "data_end s2" "buffer s2"] c2
    by (simp_all add: le_def)
  have st: "le = data_end s2 \<or> buffer s2 le = CHR 0x0A"
    using find_line_end_stops [of "data_begin s2" "data_end s2" "buffer s2"] c2
    by (simp add: le_def)
  have src: "byte_source (reader s') = byte_source (reader s2)"
    and de: "data_end s' = (if le \<noteq> data_end s2 \<and> buffer s2 le = CHR 0x0A then data_end s2 else data_end s2 + 1)"
    and db: "data_begin s' = le + 1"
    using assms e ne
    by (auto simp: next_line_def Let_def s1_def [symmetric] s2_def [symmetric] le_def [symmetric]
        split: if_splits)
  have "unread s' < unread s2"
    using b st c2 by (auto simp: unread_def src de db)
  then show ?thesis by (simp add: u2)
qed

function read_row_line ::
  "comment_policy \<Rightarrow> LineReader \<Rightarrow> error option \<Rightarrow> string option \<times> LineReader \<times> error option" where
  "read_row_line cp s err =
     (case next_line s err of
        (None, s', err') \<Rightarrow> (None, s', err')
      | (Some p, s', err') \<Rightarrow>
          if err' \<noteq> None then (None, s', map_option (locate_error s') err')
          else if is_comment cp (c_str_at (buffer s') p) then read_row_line cp s' err'
          else (Some (c_str_at (buffer s') p), s', err'))"
  by pat_completeness auto
termination
proof (relation "measure (\<lambda>(cp, s, err). unread s)")
  show "wf (measure (\<lambda>(cp, s, err). unread s))"
    by simp
qed (auto dest: next_line_unread [OF sym])

declare read_row_line.simps [simp del]

function read_header_line ::
  "comment_policy \<Rightarrow> LineReader \<Rightarrow> error option \<Rightarrow> string option \<times> LineReader \<times> error option" where
  "read_header_line cp s err =
     (case next_line s err of
        (line, s', err') \<Rightarrow>
          if err' \<noteq> None then (None, s', err')
          else
            (case line of
               None \<Rightarrow> (None, s',
                 Some (format_error_message (set_file_name (file_name s') (make_shared header_missing))))
             | Some p \<Rightarrow>
                 if is_comment cp (c_str_at (buffer s') p) then read_header_line cp s' err'
                 else (Some (c_str_at (buffer s') p), s', err')))"
  by pat_completeness auto
termination
proof (relation "measure (\<lambda>(cp, s, err). unread s)")
  show "wf (measure (\<lambda>(cp, s, err). unread s))"
    by simp
qed (auto dest: next_line_unread [OF sym])

declare read_header_line.simps [simp del]

text \<open>
  \<open>read_header\<close>: the column names are the arguments \<open>cols\<close>, as many as
  \<open>column_count\<close> (a \<open>static_assert\<close>).
\<close>

definition read_header ::
  "ignore_column \<Rightarrow> error option \<Rightarrow> string list \<Rightarrow> CSVReader \<Rightarrow> bool \<times> CSVReader \<times> error option" where
  "read_header ignore_policy err cols r =
     (if err \<noteq> None then (False, r, err)
      else
        (let r1 = r\<lparr>column_names := cols\<rparr> in
         case read_header_line (comment_policy r1) (in_reader r1) err of
           (None, s', err') \<Rightarrow> (False, r1\<lparr>in_reader := s'\<rparr>, err')
         | (Some line, s', err') \<Rightarrow>
             (case parse_header_line (column_count r1) (trim_policy r1) (quote_policy r1) line
                     (col_order r1) (column_names r1) ignore_policy err' of
                (success, col_order', err'') \<Rightarrow>
                  (success, r1\<lparr>in_reader := s', col_order := col_order'\<rparr>,
                   if \<not> success
                   then map_option (\<lambda>e. format_error_message (set_file_name (file_name s') e)) err''
                   else err''))))"

definition set_header :: "string list \<Rightarrow> CSVReader \<Rightarrow> bool \<times> CSVReader" where
  "set_header cols r =
     (True, r\<lparr>column_names := cols,
              row := replicate (column_count r) None,
              col_order := map int [0 ..< column_count r]\<rparr>)"

primrec index_of :: "string \<Rightarrow> string list \<Rightarrow> nat" where
  "index_of name [] = 0"
| "index_of name (n # ns) = (if n = name then 0 else Suc (index_of name ns))"

definition has_column :: "string \<Rightarrow> CSVReader \<Rightarrow> bool" where
  "has_column name r = (int (index_of name (column_names r)) \<in> set (col_order r))"

text \<open>
  \<open>parse_helper\<close>: the recursion over the output variables, \<open>r\<close> the index into
  \<open>row\<close>; returns its \<open>bool\<close>, the output variables and the slot.
\<close>

fun parse_helper ::
  "overflow_policy \<Rightarrow> string option list \<Rightarrow> string list \<Rightarrow> nat \<Rightarrow> cell list \<Rightarrow> error option
     \<Rightarrow> bool \<times> cell list \<times> error option" where
  "parse_helper pol row_ptr names r [] err =
     (if err \<noteq> None then (False, [], map_option format_error_message err) else (True, [], err))"
| "parse_helper pol row_ptr names r (t # cols) err =
     (if err \<noteq> None then (False, t # cols, err)
      else case row_ptr ! r of
        Some col \<Rightarrow>
          (case parse pol col t err of
             (False, t', err') \<Rightarrow>
               (False, t' # cols,
                map_option (\<lambda>e. set_column_name (c_str (names ! r)) (set_column_content col e)) err')
           | (True, t', err') \<Rightarrow>
               (case parse_helper pol row_ptr names (Suc r) cols err' of
                  (ok, cols', err'') \<Rightarrow> (ok, t' # cols', err'')))
      | None \<Rightarrow>
          (case parse_helper pol row_ptr names (Suc r) cols err of
             (ok, cols', err'') \<Rightarrow> (ok, t # cols', err'')))"

definition read_row ::
  "CSVReader \<Rightarrow> error option \<Rightarrow> cell list \<Rightarrow> bool \<times> CSVReader \<times> cell list \<times> error option" where
  "read_row r err cols =
     (if err \<noteq> None then (False, r, cols, err)
      else case read_row_line (comment_policy r) (in_reader r) err of
        (None, s', err') \<Rightarrow> (False, r\<lparr>in_reader := s'\<rparr>, cols, err')
      | (Some line, s', err') \<Rightarrow>
          (case parse_line (trim_policy r) (quote_policy r) line (row r) (col_order r) err' of
             (False, row', err'') \<Rightarrow>
               (False, r\<lparr>in_reader := s', row := row'\<rparr>, cols, map_option (locate_error s') err'')
           | (True, row', err'') \<Rightarrow>
               (case parse_helper (overflow_policy r) row' (column_names r) 0 cols err'' of
                  (ok, cols', err3) \<Rightarrow>
                    if err3 \<noteq> None
                    then (False, r\<lparr>in_reader := s', row := row'\<rparr>, cols', map_option (locate_error s') err3)
                    else (True, r\<lparr>in_reader := s', row := row'\<rparr>, cols', err3))))"


section \<open>Evaluation rules\<close>

text \<open>The two scans unfold one byte at a time.\<close>

lemma find_line_end_step:
  "line_end < stop \<Longrightarrow> buf line_end \<noteq> CHR 0x0A \<Longrightarrow>
   find_line_end buf line_end stop = find_line_end buf (line_end + 1) stop"
  by (subst find_line_end.simps) simp

lemma find_line_end_done:
  "\<not> (line_end < stop \<and> buf line_end \<noteq> CHR 0x0A) \<Longrightarrow> find_line_end buf line_end stop = line_end"
  by (subst find_line_end.simps) auto

lemma c_str_at_step:
  "p < 3 * block_len \<Longrightarrow> buf p \<noteq> NUL \<Longrightarrow> c_str_at buf p = buf p # c_str_at buf (p + 1)"
  by (subst c_str_at.simps) simp

lemma c_str_at_done:
  "\<not> (p < 3 * block_len \<and> buf p \<noteq> NUL) \<Longrightarrow> c_str_at buf p = []"
  by (subst c_str_at.simps) auto

lemmas reader_eval =
  find_line_end_step find_line_end_done c_str_at_step c_str_at_done
  next_line_def init_def LineReader_new_def read_def block_len_def NUL_def Let_def
  read_header_def read_header_line.simps read_row_line.simps read_row_def
  CSVReader_new_def CSVReader_of_source_def truncate_file_name_def c_str_def
  parse_header_line_def chop_next_column_def trim_def parse_line_def
  ignore_no_column_def ignore_extra_column_def ignore_missing_column_def
  make_shared_def set_column_name_def set_file_name_def set_file_line_def
  set_column_content_def set_error_def locate_error_def

section \<open>Integer parsers\<close>

lemma is_digit_not_special:
  "is_digit c \<Longrightarrow> c \<noteq> NUL \<and> c \<noteq> CHR ''-'' \<and> c \<noteq> CHR ''+''"
  by (auto simp: is_digit_def NUL_def)

lemma digit_of_range: "is_digit c \<Longrightarrow> 0 \<le> digit_of c \<and> digit_of c \<le> 9"
  by (auto simp: is_digit_def digit_of_def)

text \<open>The number a digit string denotes in base 10, continuing from \<open>x\<close>.\<close>

definition decimal_value :: "int \<Rightarrow> string \<Rightarrow> int" where
  "decimal_value x ds = foldl (\<lambda>a c. 10 * a + digit_of c) x ds"

lemma parse_unsigned_loop_overflow:
  "list_all is_digit ds \<Longrightarrow> x \<le> limits_max lim \<Longrightarrow> limits_max lim < decimal_value x ds \<Longrightarrow>
   parse_unsigned_loop set_to_max_on_overflow lim (ds @ rest) x = (True, limits_max lim, None)"
proof (induction ds arbitrary: x)
  case Nil
  then show ?case by (simp add: decimal_value_def)
next
  case (Cons c ds)
  have d: "is_digit c" "c \<noteq> NUL"
    using Cons.prems(1) is_digit_not_special by auto
  show ?case
  proof (cases "x > (limits_max lim - digit_of c) div 10")
    case True
    then show ?thesis using d by (simp add: Let_def)
  next
    case False
    then have le: "10 * x + digit_of c \<le> limits_max lim" by linarith
    have "parse_unsigned_loop set_to_max_on_overflow lim (ds @ rest) (10 * x + digit_of c)
            = (True, limits_max lim, None)"
      using Cons.prems le by (intro Cons.IH) (simp_all add: decimal_value_def)
    then show ?thesis using d False by (simp add: Let_def)
  qed
qed

text \<open>
  C5. Under \<open>set_to_max_on_overflow\<close>, a digit string whose value exceeds the maximum
  of the target type parses with success to that maximum and leaves the error slot
  empty, for an unsigned and for a signed target. Whatever follows the digits (\<open>rest\<close>,
  digits or not) has no influence: the parser returns where it detects the overflow.
\<close>

theorem clamp_on_overflow:
  assumes "list_all is_digit ds" and "0 \<le> limits_max lim"
    and "limits_max lim < decimal_value 0 ds"
  shows "parse_unsigned_integer set_to_max_on_overflow lim (ds @ rest) x None
           = (True, limits_max lim, None)
       \<and> parse_signed_integer set_to_max_on_overflow lim (ds @ rest) x None
           = (True, limits_max lim, None)"
proof -
  from assms have ne: "ds \<noteq> []" by (auto simp: decimal_value_def)
  then have hd: "is_digit (hd (ds @ rest))" "ds @ rest \<noteq> []"
    using assms(1) by (cases ds; simp)+
  have u: "parse_unsigned_integer set_to_max_on_overflow lim (ds @ rest) x None
             = (True, limits_max lim, None)"
    using hd is_digit_not_special [OF hd(1)]
      parse_unsigned_loop_overflow [OF assms(1) assms(2) assms(3)]
    by (simp add: parse_unsigned_integer_def)
  show ?thesis
    using u hd is_digit_not_special [OF hd(1)] by (simp add: parse_signed_integer_def)
qed

theorem clamp_on_overflow_witness:
  "list_all is_digit ''256'' \<and> 0 \<le> limits_max (unsigned_limits 8)
     \<and> limits_max (unsigned_limits 8) < decimal_value 0 ''256''
     \<and> parse_unsigned_integer set_to_max_on_overflow (unsigned_limits 8) (''256'' @ ''78x'') 3 None
         = (True, 255, None)"
  using clamp_on_overflow [of "''256''" "unsigned_limits 8" "''78x''" 3]
  by (simp add: is_digit_def decimal_value_def digit_of_def unsigned_limits_def)

text \<open>
  C10. The empty column parses with success to 0 as an unsigned and as a signed integer,
  and so does a lone sign as a signed integer; no \<open>no_digit\<close> error is made.
\<close>

theorem empty_slice_is_zero:
  "parse_unsigned_integer pol lim [] x None = (True, 0, None)
   \<and> parse_signed_integer pol lim [] x None = (True, 0, None)
   \<and> parse_signed_integer pol lim ''-'' x None = (True, 0, None)
   \<and> parse_signed_integer pol lim ''+'' x None = (True, 0, None)"
  by (simp add: parse_unsigned_integer_def parse_signed_integer_def)

section \<open>Trimming and unescaping\<close>

text \<open>
  C6. Trimming spaces and tabs and then unescaping the six bytes \<open>"a""b"\<close> under the
  double-quote policy gives the three bytes \<open>a"b\<close>.
\<close>

theorem trim_unescape_doubled_quote:
  "unescape (double_quote_escape sep (CHR 0x22))
     (trim [CHR '' '', CHR 0x09] [CHR 0x22, CHR ''a'', CHR 0x22, CHR 0x22, CHR ''b'', CHR 0x22])
   = [CHR ''a'', CHR 0x22, CHR ''b'']"
  by (simp add: trim_def)

section \<open>A pending error\<close>

text \<open>
  The claim that every parser leaves its output alone when an error is pending fails for
  the string overloads: they assign and report success.
\<close>

theorem string_parser_pending_error_counterexample:
  "parse set_to_max_on_overflow ''new'' (String_cell ''old'') (Some (make_shared no_digit))
     = (True, String_cell ''new'', Some (make_shared no_digit))"
  by (simp add: parse_string_def c_str_def NUL_def)

text \<open>
  C2, amended. With an error pending, the character, unsigned, signed and float parsers
  return failure and change neither their output nor the error. The string overloads
  (\<open>std::string\<close>, \<open>char *\<close>, \<open>const char *\<close>) never look at the slot: they assign the
  column and return success, and the pending error stays. \<open>parse_helper\<close> checks the slot
  before it calls a parser.
\<close>

theorem parsers_with_pending_error:
  "parse_char col c (Some e) = (False, c, Some e)
   \<and> parse_unsigned_integer pol lim col x (Some e) = (False, x, Some e)
   \<and> parse_signed_integer pol lim col x (Some e) = (False, x, Some e)
   \<and> parse_float ops col f (Some e) = Some (False, f, Some e)
   \<and> parse_string col s (Some e) = (True, c_str col, Some e)
   \<and> parse_helper pol row_ptr names r (t # cols) (Some e) = (False, t # cols, Some e)"
  by (simp add: parse_char_def parse_unsigned_integer_def parse_signed_integer_def
      parse_float_def parse_string_def)


section \<open>The cursors of the LineReader\<close>

definition LineReader_set_file_name :: "string \<Rightarrow> LineReader \<Rightarrow> LineReader" where
  "LineReader_set_file_name name s = s\<lparr>file_name := truncate_file_name name\<rparr>"

definition LineReader_set_file_line :: "32 word \<Rightarrow> LineReader \<Rightarrow> LineReader" where
  "LineReader_set_file_line n s = s\<lparr>file_line := n\<rparr>"

inductive reachable :: "LineReader \<Rightarrow> bool" where
  reach_new: "reachable (LineReader_new uninitialized name src)"
| reach_next_line: "reachable s \<Longrightarrow> next_line s err = (line, s', err') \<Longrightarrow> reachable s'"
| reach_set_file_name: "reachable s \<Longrightarrow> reachable (LineReader_set_file_name name s)"
| reach_set_file_line: "reachable s \<Longrightarrow> reachable (LineReader_set_file_line n s)"

definition prefetching :: "LineReader \<Rightarrow> bool" where
  "prefetching s = (is_valid (reader s) \<longrightarrow>
      read_buffer (reader s) = 2 * block_len \<and> desired_byte_count (reader s) = block_len)"

definition cursors_ok :: "LineReader \<Rightarrow> bool" where
  "cursors_ok s = (0 \<le> data_begin s \<and> data_begin s \<le> data_end s \<and> data_end s \<le> 2 * block_len)"

lemma block_len_pos: "1 < block_len" by (simp add: block_len_def)

lemma reach_init: "reachable (init uninitialized name src)"
  unfolding init_def by (rule reach_new)

lemma LineReader_new_ok:
  "cursors_ok (LineReader_new u name src) \<and> prefetching (LineReader_new u name src)"
proof -
  obtain n buf src' where r: "ByteSourceBase_read src u 0 (2 * block_len) = (n, buf, src')"
    by (cases "ByteSourceBase_read src u 0 (2 * block_len)") auto
  show ?thesis
    using block_len_pos ByteSourceBase_read_count [OF r]
    by (auto simp: LineReader_new_def r cursors_ok_def prefetching_def is_valid_def)
qed

lemma init_ok: "cursors_ok (init u name src) \<and> prefetching (init u name src)"
  unfolding init_def by (rule LineReader_new_ok)

lemma shift_block_ok:
  assumes "cursors_ok s" "prefetching s" "data_begin s \<ge> block_len"
  shows "cursors_ok (shift_block s) \<and> prefetching (shift_block s)
         \<and> data_begin (shift_block s) = data_begin s - block_len"
  using assms block_len_pos
  by (auto simp: shift_block_def cursors_ok_def prefetching_def is_valid_def finish_read_def
      start_read_def Let_def split: prod.splits dest!: ByteSourceBase_read_count)

text \<open>The state in which the scan starts, and the state a returned line leaves.\<close>

definition after_shift :: "LineReader \<Rightarrow> LineReader" where
  "after_shift s =
     (if data_begin s \<ge> block_len then shift_block (s\<lparr>file_line := file_line s + 1\<rparr>)
      else s\<lparr>file_line := file_line s + 1\<rparr>)"

definition scan_end :: "LineReader \<Rightarrow> int" where
  "scan_end s = find_line_end (buffer (after_shift s)) (data_begin (after_shift s)) (data_end (after_shift s))"

definition after_line :: "LineReader \<Rightarrow> LineReader" where
  "after_line s =
     (let s2 = after_shift s; line_end = scan_end s;
          s3 = (if line_end \<noteq> data_end s2 \<and> buffer s2 line_end = CHR 0x0A
                then s2\<lparr>buffer := (buffer s2)(line_end := NUL)\<rparr>
                else s2\<lparr>data_end := data_end s2 + 1, buffer := (buffer s2)(line_end := NUL)\<rparr>);
          s4 = (if line_end \<noteq> data_begin s3 \<and> buffer s3 (line_end - 1) = CHR 0x0D
                then s3\<lparr>buffer := (buffer s3)(line_end - 1 := NUL)\<rparr>
                else s3)
      in s4\<lparr>data_begin := line_end + 1\<rparr>)"

lemma next_line_pending: "err \<noteq> None \<Longrightarrow> next_line s err = (None, s, err)"
  by (simp add: next_line_def)

lemma next_line_at_end: "data_begin s = data_end s \<Longrightarrow> next_line s None = (None, s, None)"
  by (simp add: next_line_def)

lemma next_line_too_long:
  "data_begin s < data_end s \<Longrightarrow> data_end s \<le> 2 * block_len
   \<Longrightarrow> scan_end s - data_begin (after_shift s) + 1 > block_len
   \<Longrightarrow> next_line s None = (None, after_shift s,
         Some (set_file_line (sint (file_line (after_shift s)))
                (set_file_name (file_name (after_shift s)) (make_shared line_length_limit_exceeded))))"
  by (simp add: next_line_def Let_def after_shift_def scan_end_def)

lemma next_line_line:
  "data_begin s < data_end s \<Longrightarrow> data_end s \<le> 2 * block_len
   \<Longrightarrow> \<not> scan_end s - data_begin (after_shift s) + 1 > block_len
   \<Longrightarrow> next_line s None = (Some (data_begin (after_shift s)), after_line s, None)"
  by (simp add: next_line_def Let_def after_shift_def scan_end_def after_line_def)

lemma after_shift_ok:
  assumes "cursors_ok s" "prefetching s" "data_begin s < data_end s"
  shows "cursors_ok (after_shift s)" "prefetching (after_shift s)"
    "data_begin (after_shift s) < data_end (after_shift s)"
    "data_begin (after_shift s) < block_len"
proof -
  let ?s1 = "s\<lparr>file_line := file_line s + 1\<rparr>"
  have ok1: "cursors_ok ?s1" "prefetching ?s1" "data_begin ?s1 < data_end ?s1"
    using assms by (simp_all add: cursors_ok_def prefetching_def)
  show "cursors_ok (after_shift s)" "prefetching (after_shift s)"
    using ok1 shift_block_ok [of ?s1] by (auto simp: after_shift_def)
  show "data_begin (after_shift s) < data_end (after_shift s)"
    using ok1 shift_block_cursors [of ?s1] by (auto simp: after_shift_def)
  show "data_begin (after_shift s) < block_len"
    using ok1 shift_block_ok [of ?s1] by (auto simp: after_shift_def cursors_ok_def)
qed

lemma scan_end_bounds:
  assumes "data_begin (after_shift s) < data_end (after_shift s)"
  shows "data_begin (after_shift s) \<le> scan_end s" "scan_end s \<le> data_end (after_shift s)"
    "scan_end s = data_end (after_shift s) \<or> buffer (after_shift s) (scan_end s) = CHR 0x0A"
  using find_line_end_bounds [of "data_begin (after_shift s)" "data_end (after_shift s)" "buffer (after_shift s)"]
    find_line_end_stops [of "data_begin (after_shift s)" "data_end (after_shift s)" "buffer (after_shift s)"]
    assms
  by (simp_all add: scan_end_def)

lemma after_line_fields:
  "reader (after_line s) = reader (after_shift s)"
  "data_begin (after_line s) = scan_end s + 1"
  "data_end (after_line s) =
     (if scan_end s \<noteq> data_end (after_shift s) \<and> buffer (after_shift s) (scan_end s) = CHR 0x0A
      then data_end (after_shift s) else data_end (after_shift s) + 1)"
  "file_name (after_line s) = file_name (after_shift s)"
  "file_line (after_line s) = file_line (after_shift s)"
  by (simp_all add: after_line_def Let_def)

lemma next_line_ok:
  assumes "cursors_ok s" "prefetching s" "next_line s err = (line, s', err')"
  shows "cursors_ok s' \<and> prefetching s'"
proof -
  consider "err \<noteq> None" | "err = None" "data_begin s = data_end s"
    | "err = None" "data_begin s < data_end s" "scan_end s - data_begin (after_shift s) + 1 > block_len"
    | "err = None" "data_begin s < data_end s" "\<not> scan_end s - data_begin (after_shift s) + 1 > block_len"
    using assms(1) by (cases err) (force simp: cursors_ok_def)+
  then show ?thesis
  proof cases
    case 1
    then show ?thesis using assms by (simp add: next_line_pending)
  next
    case 2
    then show ?thesis using assms by (simp add: next_line_at_end)
  next
    case 3
    then have "s' = after_shift s"
      using assms next_line_too_long [of s] by (simp add: cursors_ok_def)
    then show ?thesis using after_shift_ok [OF assms(1,2) 3(2)] by simp
  next
    case 4
    then have "s' = after_line s"
      using assms next_line_line [of s] by (simp add: cursors_ok_def)
    then show ?thesis
      using after_shift_ok [OF assms(1,2) 4(2)] scan_end_bounds [of s] 4(3)
      by (auto simp: cursors_ok_def prefetching_def after_line_fields)
  qed
qed

text \<open>
  C9. In every state a \<open>LineReader\<close> reaches from its construction (over any byte
  source, \<open>reach_init\<close> for an in-memory range) by calls of \<open>next_line\<close>
  (with any error slot and any outcome: a line, the end of the data, an error) and of
  the two setters, the cursors satisfy \<open>0 \<le> data_begin \<le> data_end \<le> 2 * block_len\<close>.
  The shift-and-refill path and the path of a last line without newline are cases of
  \<open>next_line_ok\<close>.
\<close>

theorem cursors_invariant:
  "reachable s \<Longrightarrow> 0 \<le> data_begin s \<and> data_begin s \<le> data_end s \<and> data_end s \<le> 2 * block_len"
proof -
  have "reachable s \<Longrightarrow> cursors_ok s \<and> prefetching s"
  proof (induction rule: reachable.induct)
    case (reach_new uninitialized name src)
    show ?case by (rule LineReader_new_ok)
  next
    case (reach_next_line s err line s' err')
    then show ?case using next_line_ok by blast
  next
    case (reach_set_file_name s name)
    then show ?case by (simp add: LineReader_set_file_name_def cursors_ok_def prefetching_def)
  next
    case (reach_set_file_line s n)
    then show ?case by (simp add: LineReader_set_file_line_def cursors_ok_def prefetching_def)
  qed
  then show "reachable s \<Longrightarrow> 0 \<le> data_begin s \<and> data_begin s \<le> data_end s \<and> data_end s \<le> 2 * block_len"
    by (simp add: cursors_ok_def)
qed

section \<open>The bytes not yet handed out\<close>

definition bytes :: "(int \<Rightarrow> char) \<Rightarrow> int \<Rightarrow> nat \<Rightarrow> string" where
  "bytes buf a n = map (\<lambda>k. buf (a + int k)) [0 ..< n]"

definition window :: "LineReader \<Rightarrow> string" where
  "window s = bytes (buffer s) (data_begin s) (nat (data_end s - data_begin s))"

fun in_memory :: "ByteSourceBase option \<Rightarrow> bool" where
  "in_memory None = True"
| "in_memory (Some (NonOwningStringByteSource str)) = True"
| "in_memory (Some (ClientByteSource pieces)) = False"

definition source_rest :: "LineReader \<Rightarrow> string" where
  "source_rest s = (case byte_source (reader s) of None \<Rightarrow> [] | Some src \<Rightarrow> remaining src)"

definition pending :: "LineReader \<Rightarrow> string" where
  "pending s = window s @ source_rest s"

definition streaming :: "LineReader \<Rightarrow> bool" where
  "streaming s =
     (cursors_ok s \<and> prefetching s \<and> data_begin s < 2 * block_len
      \<and> (source_rest s = [] \<or> data_end s = 2 * block_len)
      \<and> in_memory (byte_source (reader s)))"

lemma length_bytes [simp]: "length (bytes buf a n) = n"
  by (simp add: bytes_def)

lemma nth_bytes [simp]: "k < n \<Longrightarrow> bytes buf a n ! k = buf (a + int k)"
  by (simp add: bytes_def)

lemma bytes_0 [simp]: "bytes buf a 0 = []"
  by (simp add: bytes_def)

lemma bytes_Suc: "bytes buf a (Suc n) = buf a # bytes buf (a + 1) n"
  by (rule nth_equalityI) (auto simp: nth_Cons' algebra_simps)

lemma bytes_add: "bytes buf a (m + n) = bytes buf a m @ bytes buf (a + int m) n"
  by (rule nth_equalityI) (auto simp: nth_append algebra_simps)

lemma bytes_eqI:
  "(\<And>k. k < n \<Longrightarrow> f (a + int k) = g (b + int k)) \<Longrightarrow> bytes f a n = bytes g b n"
  by (rule nth_equalityI) auto

lemma take_bytes: "m \<le> n \<Longrightarrow> take m (bytes buf a n) = bytes buf a m"
  by (rule nth_equalityI) auto

lemma drop_bytes: "drop m (bytes buf a n) = bytes buf (a + int m) (n - m)"
  by (rule nth_equalityI) (auto simp: algebra_simps)

lemma find_line_end_takeWhile:
  "a \<le> b \<Longrightarrow> find_line_end buf a b
     = a + int (length (takeWhile (\<lambda>c. c \<noteq> CHR 0x0A) (bytes buf a (nat (b - a)))))"
proof (induction buf a b rule: find_line_end.induct)
  case (1 buf line_end stop)
  show ?case
  proof (cases "line_end < stop")
    case True
    then have n: "nat (stop - line_end) = Suc (nat (stop - (line_end + 1)))" by simp
    show ?thesis
    proof (cases "buf line_end = CHR 0x0A")
      case True
      then show ?thesis using \<open>line_end < stop\<close>
        by (subst find_line_end.simps) (simp add: n bytes_Suc)
    next
      case False
      then show ?thesis using \<open>line_end < stop\<close> "1.IH"
        by (subst find_line_end.simps) (simp add: n bytes_Suc)
    qed
  next
    case False
    then show ?thesis using "1.prems" by (subst find_line_end.simps) simp
  qed
qed

lemma c_str_at_bytes:
  "buf (p + int n) = NUL \<Longrightarrow> p + int n < 3 * block_len
   \<Longrightarrow> c_str_at buf p = c_str (bytes buf p n)"
proof (induction n arbitrary: p)
  case 0
  then show ?case by (subst c_str_at.simps) (simp add: c_str_def)
next
  case (Suc n)
  have "c_str_at buf (p + 1) = c_str (bytes buf (p + 1) n)"
    using Suc.prems by (intro Suc.IH) (simp_all add: algebra_simps)
  then show ?case using Suc.prems
    by (subst c_str_at.simps) (simp add: bytes_Suc c_str_def)
qed

lemma drop_take_drop: "k \<le> n \<Longrightarrow> drop k (take n xs) @ drop n xs = drop k xs"
proof -
  assume kn: "k \<le> n"
  have "drop k xs = drop k (take n xs @ drop n xs)" by simp
  also have "\<dots> = drop k (take n xs) @ drop (k - length (take n xs)) (drop n xs)"
    by (simp only: drop_append)
  also have "drop (k - length (take n xs)) (drop n xs) = drop n xs"
    using kn by (cases "n \<le> length xs") (simp_all add: min_def)
  finally show ?thesis by simp
qed

lemma streaming_init:
  "streaming (init u name src)"
  using block_len_pos init_ok [of u name src]
  by (auto simp: streaming_def init_def LineReader_new_def read_def source_rest_def Let_def)

lemma pending_init:
  "pending (init u name src) =
     (if length src \<ge> 3 \<and> take 3 src = [CHR 0xEF, CHR 0xBB, CHR 0xBF] then drop 3 src else src)"
proof -
  let ?n = "nat (2 * block_len)"
  let ?s = "init u name src"
  have de: "data_end ?s = int (length (take ?n src))" and
    buf: "\<And>i. 0 \<le> i \<Longrightarrow> i < int (length (take ?n src)) \<Longrightarrow> buffer ?s i = src ! nat i"
    by (simp_all add: init_def LineReader_new_def read_def Let_def)
  have rest: "source_rest ?s = drop ?n src"
    using block_len_pos
    by (auto simp: init_def LineReader_new_def read_def Let_def source_rest_def min_def split: if_splits)
  have db: "data_begin ?s = (if length src \<ge> 3 \<and> take 3 src = [CHR 0xEF, CHR 0xBB, CHR 0xBF] then 3 else 0)"
  proof -
    have big: "3 \<le> ?n" using block_len_pos by simp
    have "take 3 src = [CHR 0xEF, CHR 0xBB, CHR 0xBF] \<longleftrightarrow> src ! 0 = CHR 0xEF \<and> src ! 1 = CHR 0xBB \<and> src ! 2 = CHR 0xBF"
      if len: "length src \<ge> 3"
    proof -
      obtain a b c r where "src = a # b # c # r"
        using len by (auto simp: numeral_3_eq_3 Suc_le_length_iff)
      then show ?thesis by simp
    qed
    then show ?thesis using big
      by (auto simp: init_def LineReader_new_def read_def Let_def min_def)
  qed
  have w: "window ?s = drop (nat (data_begin ?s)) (take ?n src)"
    unfolding window_def
    by (rule nth_equalityI) (auto simp: de db buf nat_add_distrib)
  have "pending ?s = drop (nat (data_begin ?s)) (take ?n src) @ drop ?n src"
    by (simp add: pending_def w rest)
  also have "\<dots> = drop (nat (data_begin ?s)) src"
    using block_len_pos by (intro drop_take_drop) (auto simp: db)
  finally show ?thesis by (simp add: db)
qed

lemma in_memory_Some:
  "in_memory (Some bs) \<Longrightarrow> \<exists>src. bs = NonOwningStringByteSource src"
  by (cases bs) auto

lemma shift_block_pending:
  assumes "streaming s" "data_begin s < data_end s" "data_begin s \<ge> block_len"
  shows "pending (shift_block s) = pending s"
    and "source_rest (shift_block s) = [] \<or> data_end (shift_block s) = 2 * block_len"
    and "in_memory (byte_source (reader (shift_block s)))"
proof -
  have c: "0 \<le> data_begin s" "data_end s \<le> 2 * block_len" "prefetching s"
    and src: "source_rest s = [] \<or> data_end s = 2 * block_len"
    and mem: "in_memory (byte_source (reader s))"
    using assms(1) by (auto simp: streaming_def cursors_ok_def)
  have B: "0 < block_len" using block_len_pos by simp
  show "pending (shift_block s) = pending s"
  proof (cases "byte_source (reader s)")
    case None
    then have "shift_block s = s\<lparr>buffer := memcpy (buffer s) 0 block_len block_len,
        data_begin := data_begin s - block_len, data_end := data_end s - block_len\<rparr>"
      by (simp add: shift_block_def is_valid_def Let_def)
    then show ?thesis using None assms c
      by (auto simp: pending_def window_def source_rest_def memcpy_def intro!: bytes_eqI)
  next
    case (Some bs)
    then obtain src where Some: "byte_source (reader s) = Some (NonOwningStringByteSource src)"
      using mem in_memory_Some by auto
    define n where "n = length (take (nat block_len) src)"
    have rd: "read_buffer (reader s) = 2 * block_len" "desired_byte_count (reader s) = block_len"
      using c(3) Some by (auto simp: prefetching_def is_valid_def)
    have sh: "data_begin (shift_block s) = data_begin s - block_len"
      "data_end (shift_block s) = data_end s - block_len + int n"
      "source_rest (shift_block s) = drop (nat block_len) src"
      using Some rd
      by (auto simp: shift_block_def is_valid_def Let_def finish_read_def read_def start_read_def
          source_rest_def n_def)
    have buf_lo: "buffer (shift_block s) i = buffer s (block_len + i)" if "0 \<le> i" "i < block_len" for i
      using Some rd that B
      by (auto simp: shift_block_def is_valid_def Let_def finish_read_def read_def start_read_def
          memcpy_def)
    have buf_hi: "buffer (shift_block s) (block_len + int k) = src ! k" if "k < n" for k
      using Some rd that B
      by (auto simp: shift_block_def is_valid_def Let_def finish_read_def read_def start_read_def
          memcpy_def n_def)
    show ?thesis
    proof (cases "src = []")
      case True
      then have "n = 0" by (simp add: n_def)
      then show ?thesis using Some True assms c sh buf_lo
        by (auto simp: pending_def window_def source_rest_def intro!: bytes_eqI)
    next
      case False
      then have de: "data_end s = 2 * block_len" using src Some by (simp add: source_rest_def)
      let ?m = "nat (2 * block_len - data_begin s)"
      have "nat (data_end (shift_block s) - data_begin (shift_block s)) = ?m + n"
        using assms c de by (simp add: sh)
      then have "window (shift_block s) = bytes (buffer (shift_block s)) (data_begin s - block_len) (?m + n)"
        by (simp add: window_def sh)
      also have "\<dots> = bytes (buffer (shift_block s)) (data_begin s - block_len) ?m
                      @ bytes (buffer (shift_block s)) block_len n"
        using assms c by (simp add: bytes_add)
      also have "bytes (buffer (shift_block s)) (data_begin s - block_len) ?m = window s"
        unfolding window_def de using assms c
        by (intro bytes_eqI) (simp add: buf_lo)
      also have "bytes (buffer (shift_block s)) block_len n = take (nat block_len) src"
        by (rule nth_equalityI) (auto simp: buf_hi n_def)
      finally have "window (shift_block s) = window s @ take (nat block_len) src" .
      moreover have "source_rest s = src" using Some by (simp add: source_rest_def)
      ultimately show ?thesis
        by (simp add: pending_def sh)
    qed
  qed
  show "source_rest (shift_block s) = [] \<or> data_end (shift_block s) = 2 * block_len"
  proof (cases "byte_source (reader s)")
    case None
    then show ?thesis
      by (simp add: shift_block_def is_valid_def Let_def source_rest_def)
  next
    case (Some bs)
    then obtain src where Some: "byte_source (reader s) = Some (NonOwningStringByteSource src)"
      using mem in_memory_Some by auto
    have rd: "read_buffer (reader s) = 2 * block_len" "desired_byte_count (reader s) = block_len"
      using c(3) Some by (auto simp: prefetching_def is_valid_def)
    have sh: "data_end (shift_block s) = data_end s - block_len + int (length (take (nat block_len) src))"
      "source_rest (shift_block s) = drop (nat block_len) src"
      using Some rd
      by (auto simp: shift_block_def is_valid_def Let_def finish_read_def read_def start_read_def
          source_rest_def)
    show ?thesis
    proof (cases "drop (nat block_len) src = []")
      case True
      then show ?thesis by (simp add: sh)
    next
      case False
      then have "src \<noteq> []" "length (take (nat block_len) src) = nat block_len" by auto
      then show ?thesis using src Some B by (simp add: sh source_rest_def)
    qed
  qed
  show "in_memory (byte_source (reader (shift_block s)))"
  proof (cases "byte_source (reader s)")
    case None
    then show ?thesis by (simp add: shift_block_def is_valid_def Let_def)
  next
    case (Some bs)
    then obtain src where "byte_source (reader s) = Some (NonOwningStringByteSource src)"
      using mem in_memory_Some by auto
    then show ?thesis
      by (simp add: shift_block_def is_valid_def Let_def finish_read_def read_def start_read_def)
  qed
qed

lemma after_shift_pending:
  assumes "streaming s" "data_begin s < data_end s"
  shows "pending (after_shift s) = pending s"
    and "source_rest (after_shift s) = [] \<or> data_end (after_shift s) = 2 * block_len"
    and "file_line (after_shift s) = file_line s + 1"
    and "file_name (after_shift s) = file_name s"
    and "in_memory (byte_source (reader (after_shift s)))"
proof -
  let ?s1 = "s\<lparr>file_line := file_line s + 1\<rparr>"
  have s1: "streaming ?s1" "data_begin ?s1 < data_end ?s1" "pending ?s1 = pending s"
    using assms
    by (simp_all add: streaming_def cursors_ok_def prefetching_def source_rest_def pending_def window_def)
  show "pending (after_shift s) = pending s"
    using shift_block_pending(1) [OF s1(1,2)] s1(3) by (simp add: after_shift_def)
  show "source_rest (after_shift s) = [] \<or> data_end (after_shift s) = 2 * block_len"
    using shift_block_pending(2) [OF s1(1,2)] s1(1)
    by (auto simp: after_shift_def streaming_def)
  show "file_line (after_shift s) = file_line s + 1" "file_name (after_shift s) = file_name s"
    by (auto simp: after_shift_def shift_block_def Let_def split: prod.splits)
  show "in_memory (byte_source (reader (after_shift s)))"
    using shift_block_pending(3) [OF s1(1,2)] s1(1)
    by (auto simp: after_shift_def streaming_def)
qed

definition first_line :: "string \<Rightarrow> string" where
  "first_line content = takeWhile (\<lambda>c. c \<noteq> CHR 0x0A) content"

definition strip_cr :: "string \<Rightarrow> string" where
  "strip_cr l = (if l \<noteq> [] \<and> last l = CHR 0x0D then butlast l else l)"

lemma after_line_buffer:
  "buffer (after_line s) i =
     (if i = scan_end s then NUL
      else if i = scan_end s - 1 \<and> scan_end s \<noteq> data_begin (after_shift s)
              \<and> buffer (after_shift s) (scan_end s - 1) = CHR 0x0D then NUL
      else buffer (after_shift s) i)"
  by (simp add: after_line_def Let_def)

lemma c_str_snoc_NUL: "c_str (xs @ [NUL]) = c_str xs"
  by (induction xs) (simp_all add: c_str_def)

lemma pending_nonempty:
  assumes "streaming s" "pending s \<noteq> []"
  shows "data_begin s < data_end s"
proof (rule ccontr)
  assume "\<not> data_begin s < data_end s"
  then have w: "window s = []" by (simp add: window_def)
  then have "source_rest s \<noteq> []" using assms(2) by (simp add: pending_def)
  then have "data_end s = 2 * block_len" using assms(1) by (auto simp: streaming_def)
  then show False using assms(1) \<open>\<not> data_begin s < data_end s\<close> by (simp add: streaming_def)
qed

lemma next_line_empty:
  assumes "streaming s" "pending s = []"
  shows "next_line s None = (None, s, None)"
proof -
  have "length (window s) = 0" using assms(2) by (simp add: pending_def)
  then have "data_begin s = data_end s"
    using assms(1) by (simp add: window_def streaming_def cursors_ok_def)
  then show ?thesis by (rule next_line_at_end)
qed

text \<open>What the scan finds, in terms of the bytes not yet handed out.\<close>

lemma scan_facts:
  assumes "streaming s" "pending s \<noteq> []"
  defines "l \<equiv> first_line (pending s)"
  defines "s2 \<equiv> after_shift s"
  shows "int (length l) < block_len \<Longrightarrow> scan_end s = data_begin s2 + int (length l)"
    and "int (length l) < block_len \<Longrightarrow> bytes (buffer s2) (data_begin s2) (length l) = l"
    and "int (length l) < block_len \<Longrightarrow>
           (scan_end s \<noteq> data_end s2 \<and> buffer s2 (scan_end s) = CHR 0x0A
              \<and> pending s = l @ CHR 0x0A # drop (Suc (length l)) (pending s)
              \<and> bytes (buffer s2) (scan_end s + 1) (nat (data_end s2 - (scan_end s + 1))) @ source_rest s2
                  = drop (Suc (length l)) (pending s))
           \<or> (scan_end s = data_end s2 \<and> source_rest s2 = [] \<and> pending s = l)"
    and "block_len \<le> int (length l) \<Longrightarrow> scan_end s - data_begin s2 + 1 > block_len"
proof -
  have lt: "data_begin s < data_end s" by (rule pending_nonempty [OF assms(1,2)])
  have c: "cursors_ok s" "prefetching s" using assms(1) by (auto simp: streaming_def)
  note as = after_shift_ok [OF c lt, folded s2_def]
  note ap = after_shift_pending [OF assms(1) lt, folded s2_def]
  define w where "w = window s2"
  define k where "k = length (takeWhile (\<lambda>c. c \<noteq> CHR 0x0A) w)"
  have lw: "length w = nat (data_end s2 - data_begin s2)" by (simp add: w_def window_def)
  have p: "pending s = w @ source_rest s2" using ap(1) by (simp add: pending_def w_def)
  have se: "scan_end s = data_begin s2 + int k"
    using find_line_end_takeWhile [of "data_begin s2" "data_end s2" "buffer s2"] as(3)
    by (simp add: scan_end_def s2_def [symmetric] k_def w_def window_def)
  have kl: "k \<le> length w" by (simp add: k_def length_takeWhile_le)
  have cases: "(k < length w \<and> w ! k = CHR 0x0A \<and> l = take k w) \<or>
               (k = length w \<and> l = w @ first_line (source_rest s2))"
  proof (cases "\<exists>x \<in> set w. x = CHR 0x0A")
    case True
    then have "takeWhile (\<lambda>c. c \<noteq> CHR 0x0A) (w @ source_rest s2) = takeWhile (\<lambda>c. c \<noteq> CHR 0x0A) w"
      by (auto intro: takeWhile_append1)
    moreover have "takeWhile (\<lambda>c. c \<noteq> CHR 0x0A) w \<noteq> w"
      using True by (simp add: takeWhile_eq_all_conv)
    then have "k \<noteq> length w"
      unfolding k_def by (metis takeWhile_eq_take take_all order_refl)
    then have "k < length w" using kl by simp
    moreover have "w ! k = CHR 0x0A"
      using \<open>k < length w\<close> nth_length_takeWhile [of "\<lambda>c. c \<noteq> CHR 0x0A" w] by (simp add: k_def)
    moreover have "takeWhile (\<lambda>c. c \<noteq> CHR 0x0A) w = take k w"
      unfolding k_def by (rule takeWhile_eq_take)
    ultimately show ?thesis
      by (simp add: l_def first_line_def p)
  next
    case False
    then have "takeWhile (\<lambda>c. c \<noteq> CHR 0x0A) (w @ source_rest s2) = w @ takeWhile (\<lambda>c. c \<noteq> CHR 0x0A) (source_rest s2)"
      by (auto intro: takeWhile_append2)
    moreover have "takeWhile (\<lambda>c. c \<noteq> CHR 0x0A) w = w"
      using False by (auto simp: takeWhile_eq_all_conv)
    then have "k = length w" unfolding k_def by (rule arg_cong)
    ultimately show ?thesis by (simp add: l_def first_line_def p)
  qed
  have big: "source_rest s2 \<noteq> [] \<Longrightarrow> int (length w) > block_len"
    using ap(2) as(4) by (auto simp: lw)
  {
    assume short: "int (length l) < block_len"
    have rest_empty: "source_rest s2 = []" if "k = length w"
    proof (rule ccontr)
      assume "source_rest s2 \<noteq> []"
      then have "int (length w) > block_len" by (rule big)
      moreover have "length l \<ge> length w" using cases that by auto
      ultimately show False using short by simp
    qed
    have kl': "k = length l \<and> (k = length w \<longrightarrow> source_rest s2 = [])"
      using cases rest_empty by (auto simp: first_line_def)
    show "scan_end s = data_begin s2 + int (length l)" using se kl' by simp
    show "bytes (buffer s2) (data_begin s2) (length l) = l"
    proof -
      have "l = take k w" using cases kl' by (auto simp: first_line_def)
      also have "\<dots> = bytes (buffer s2) (data_begin s2) k"
        using kl by (simp add: w_def window_def take_bytes)
      finally show ?thesis using kl' by simp
    qed
    show "(scan_end s \<noteq> data_end s2 \<and> buffer s2 (scan_end s) = CHR 0x0A
              \<and> pending s = l @ CHR 0x0A # drop (Suc (length l)) (pending s)
              \<and> bytes (buffer s2) (scan_end s + 1) (nat (data_end s2 - (scan_end s + 1))) @ source_rest s2
                  = drop (Suc (length l)) (pending s))
           \<or> (scan_end s = data_end s2 \<and> source_rest s2 = [] \<and> pending s = l)"
    proof (cases "k < length w")
      case True
      then have wk: "w ! k = CHR 0x0A" "l = take k w" using cases by auto
      have b: "buffer s2 (scan_end s) = CHR 0x0A"
        using wk(1) True by (simp add: se w_def window_def)
      have ne: "scan_end s \<noteq> data_end s2" using True lw se by linarith
      have d: "drop (Suc k) (pending s) = drop (Suc k) w @ source_rest s2"
        using True by (simp add: p)
      have "w = take k w @ w ! k # drop (Suc k) w"
        using True by (simp add: id_take_nth_drop [symmetric])
      then have "pending s = l @ CHR 0x0A # drop (Suc (length l)) (pending s)"
        using kl' d wk p by (metis append.assoc append_Cons)
      moreover have "bytes (buffer s2) (scan_end s + 1) (nat (data_end s2 - (scan_end s + 1)))
                       = drop (Suc k) w"
      proof -
        have "nat (data_end s2 - (scan_end s + 1)) = length w - Suc k"
          using lw se True by simp
        then show ?thesis
          by (simp add: w_def window_def drop_bytes se algebra_simps)
      qed
      ultimately show ?thesis using b ne d kl' by simp
    next
      case False
      then have "k = length w" using kl by simp
      then have "source_rest s2 = []" "l = w" using kl' cases by (auto simp: first_line_def)
      moreover have "scan_end s = data_end s2" using se \<open>k = length w\<close> lw as(3) by simp
      ultimately show ?thesis using p by simp
    qed
  }
  {
    assume long: "block_len \<le> int (length l)"
    show "scan_end s - data_begin s2 + 1 > block_len"
    proof (cases "k < length w")
      case True
      then show ?thesis using cases long se by auto
    next
      case False
      then have k: "k = length w" using kl by simp
      show ?thesis
      proof (cases "source_rest s2 = []")
        case True
        then show ?thesis using cases k long se by (auto simp: first_line_def)
      next
        case False
        then show ?thesis using big k se by simp
      qed
    qed
  }
qed

lemma bytes_snoc: "bytes buf a (Suc n) = bytes buf a n @ [buf (a + int n)]"
  by (rule nth_equalityI) (auto simp: nth_append less_Suc_eq)

lemma next_line_long:
  assumes "streaming s" "pending s \<noteq> []" "block_len \<le> int (length (first_line (pending s)))"
  shows "next_line s None = (None, after_shift s,
           Some (set_file_line (sint (file_line s + 1))
                  (set_file_name (file_name s) (make_shared line_length_limit_exceeded))))"
proof -
  have lt: "data_begin s < data_end s" by (rule pending_nonempty [OF assms(1,2)])
  have de: "data_end s \<le> 2 * block_len" using assms(1) by (simp add: streaming_def cursors_ok_def)
  show ?thesis
    using next_line_too_long [OF lt de scan_facts(4) [OF assms]]
      after_shift_pending(3,4) [OF assms(1) lt]
    by simp
qed

lemma next_line_short:
  assumes "streaming s" "pending s \<noteq> []" "int (length (first_line (pending s))) < block_len"
  shows "next_line s None = (Some (data_begin (after_shift s)), after_line s, None)"
    and "streaming (after_line s)"
    and "pending (after_line s) = drop (Suc (length (first_line (pending s)))) (pending s)"
    and "c_str_at (buffer (after_line s)) (data_begin (after_shift s))
           = c_str (strip_cr (first_line (pending s)))"
    and "file_line (after_line s) = file_line s + 1"
    and "file_name (after_line s) = file_name s"
proof -
  define l where "l = first_line (pending s)"
  define s2 where "s2 = after_shift s"
  have lt: "data_begin s < data_end s" by (rule pending_nonempty [OF assms(1,2)])
  have c: "cursors_ok s" "prefetching s" using assms(1) by (auto simp: streaming_def)
  have de: "data_end s \<le> 2 * block_len" using c by (simp add: cursors_ok_def)
  note as = after_shift_ok [OF c lt, folded s2_def]
  note ap = after_shift_pending [OF assms(1) lt, folded s2_def]
  note sf = scan_facts(1-3) [OF assms(1,2) assms(3), folded l_def s2_def]
  have short: "int (length l) < block_len" using assms(3) by (simp add: l_def)
  have c2: "0 \<le> data_begin s2" "data_end s2 \<le> 2 * block_len"
    using as(1) by (auto simp: cursors_ok_def)
  show nl: "next_line s None = (Some (data_begin (after_shift s)), after_line s, None)"
    using sf(1) short by (intro next_line_line [OF lt de]) (simp add: s2_def)
  show "file_line (after_line s) = file_line s + 1" "file_name (after_line s) = file_name s"
    using ap(3,4) by (simp_all add: after_line_fields s2_def)
  have fields: "reader (after_line s) = reader s2" "data_begin (after_line s) = scan_end s + 1"
    "data_end (after_line s) =
       (if scan_end s \<noteq> data_end s2 \<and> buffer s2 (scan_end s) = CHR 0x0A
        then data_end s2 else data_end s2 + 1)"
    by (simp_all add: after_line_fields s2_def)
  have rest: "source_rest (after_line s) = source_rest s2"
    by (simp add: source_rest_def fields)
  have buf_after: "buffer (after_line s) i = buffer s2 i" if "scan_end s < i" for i
    using that by (simp add: after_line_buffer s2_def)
  have win: "window (after_line s) = bytes (buffer s2) (scan_end s + 1) (nat (data_end (after_line s) - (scan_end s + 1)))"
    unfolding window_def fields(2) by (intro bytes_eqI) (simp add: buf_after)
  from sf(3) show "pending (after_line s) = drop (Suc (length (first_line (pending s)))) (pending s)"
  proof
    assume a: "scan_end s \<noteq> data_end s2 \<and> buffer s2 (scan_end s) = CHR 0x0A
       \<and> pending s = l @ CHR 0x0A # drop (Suc (length l)) (pending s)
       \<and> bytes (buffer s2) (scan_end s + 1) (nat (data_end s2 - (scan_end s + 1))) @ source_rest s2
           = drop (Suc (length l)) (pending s)"
    then have "data_end (after_line s) = data_end s2" by (simp add: fields)
    then show ?thesis using a by (simp add: pending_def win rest l_def)
  next
    assume a: "scan_end s = data_end s2 \<and> source_rest s2 = [] \<and> pending s = l"
    then have "data_end (after_line s) = data_end s2 + 1" by (simp add: fields)
    then have "window (after_line s) = []" using a by (simp add: win)
    then have "pending (after_line s) = []" using a by (simp add: pending_def [of "after_line s"] rest)
    moreover have "drop (Suc (length l)) (pending s) = []" using a by simp
    ultimately show ?thesis by (simp add: l_def)
  qed
  show "streaming (after_line s)"
  proof -
    have se: "scan_end s = data_begin s2 + int (length l)" by (rule sf(1))
    have "data_end (after_line s) \<le> 2 * block_len \<and> data_begin (after_line s) \<le> data_end (after_line s)
          \<and> (source_rest s2 = [] \<or> data_end (after_line s) = 2 * block_len)"
      using sf(3) ap(2) as(3,4) c2 short se scan_end_bounds [of s, folded s2_def]
      by (auto simp: fields)
    moreover have "data_begin (after_line s) < 2 * block_len" "0 \<le> data_begin (after_line s)"
      using se short as(4) c2 by (simp_all add: fields)
    moreover have "prefetching (after_line s)"
      using as(2) by (simp add: prefetching_def fields)
    moreover have "in_memory (byte_source (reader (after_line s)))"
      using ap(5) by (simp add: fields)
    ultimately show ?thesis
      by (simp add: streaming_def cursors_ok_def rest)
  qed
  show "c_str_at (buffer (after_line s)) (data_begin (after_shift s))
           = c_str (strip_cr (first_line (pending s)))"
  proof -
    have se: "scan_end s = data_begin s2 + int (length l)" by (rule sf(1))
    have nul: "buffer (after_line s) (data_begin s2 + int (length l)) = NUL"
      by (simp add: after_line_buffer se [symmetric])
    have bound: "data_begin s2 + int (length l) < 3 * block_len"
      using short as(4) block_len_pos by simp
    have "c_str_at (buffer (after_line s)) (data_begin s2)
            = c_str (bytes (buffer (after_line s)) (data_begin s2) (length l))"
      using nul bound by (rule c_str_at_bytes [of "buffer (after_line s)" "data_begin s2" "length l"])
    also have "\<dots> = c_str (strip_cr l)"
    proof (cases "l \<noteq> [] \<and> last l = CHR 0x0D")
      case True
      then obtain m where m: "length l = Suc m" by (cases l) auto
      have lastl: "buffer s2 (data_begin s2 + int m) = CHR 0x0D"
      proof -
        have "last l = l ! m" using True m last_conv_nth [of l] by simp
        also have "\<dots> = bytes (buffer s2) (data_begin s2) (length l) ! m" by (simp add: sf(2))
        finally show ?thesis using True m by simp
      qed
      have "bytes (buffer (after_line s)) (data_begin s2) (Suc m)
              = bytes (buffer (after_line s)) (data_begin s2) m @ [NUL]"
        using lastl m
        by (simp add: bytes_snoc after_line_buffer se s2_def [symmetric])
      also have "bytes (buffer (after_line s)) (data_begin s2) m = bytes (buffer s2) (data_begin s2) m"
        by (intro bytes_eqI) (simp add: after_line_buffer se m s2_def [symmetric])
      also have "\<dots> = take m l"
        using sf(2) m by (metis take_bytes le_add2 plus_1_eq_Suc)
      also have "take m l = butlast l" using m by (simp add: butlast_conv_take)
      finally show ?thesis using True m by (simp add: strip_cr_def c_str_snoc_NUL)
    next
      case False
      have "bytes (buffer (after_line s)) (data_begin s2) (length l)
              = bytes (buffer s2) (data_begin s2) (length l)"
      proof (rule bytes_eqI)
        fix k assume k: "k < length l"
        have "buffer s2 (data_begin s2 + int k) \<noteq> CHR 0x0D" if "int k = int (length l) - 1"
        proof -
          have "k = length l - 1" "l \<noteq> []" using that k by auto
          then have "l ! k = last l" using last_conv_nth [of l] by simp
          moreover have "l ! k = buffer s2 (data_begin s2 + int k)"
            using k sf(2) by (metis nth_bytes)
          ultimately show ?thesis using False \<open>l \<noteq> []\<close> by simp
        qed
        then show "buffer (after_line s) (data_begin s2 + int k) = buffer s2 (data_begin s2 + int k)"
          using k by (auto simp: after_line_buffer se s2_def [symmetric] add_diff_eq)
      qed
      then show ?thesis using False sf(2) by (auto simp: strip_cr_def)
    qed
    finally show ?thesis by (simp add: s2_def l_def)
  qed
qed

text \<open>
  A file of two lines, the last one without newline: the first call of \<open>next_line\<close>
  takes the path of a line that ends with a newline, the second one the path that
  writes the terminator after the data, the third one finds the end of the data.
\<close>

definition two_lines :: LineReader where
  "two_lines = init (\<lambda>i. CHR ''?'') ''f'' (''a'' @ [CHR 0x0A] @ ''b'')"

lemma reachable_next_line: "reachable s \<Longrightarrow> reachable (fst (snd (next_line s err)))"
  by (rule reach_next_line [where err = err and line = "fst (next_line s err)"
        and err' = "snd (snd (next_line s err))"]) simp_all

theorem cursors_invariant_witness:
  "(let s1 = fst (snd (next_line two_lines None));
        s2 = fst (snd (next_line s1 None));
        s3 = fst (snd (next_line s2 None))
    in reachable s3
       \<and> (0 \<le> data_begin s1 \<and> data_begin s1 \<le> data_end s1 \<and> data_end s1 \<le> 2 * block_len)
       \<and> (0 \<le> data_begin s2 \<and> data_begin s2 \<le> data_end s2 \<and> data_end s2 \<le> 2 * block_len)
       \<and> (0 \<le> data_begin s3 \<and> data_begin s3 \<le> data_end s3 \<and> data_end s3 \<le> 2 * block_len)
       \<and> (data_begin two_lines, data_end two_lines) = (0, 3)
       \<and> (fst (next_line two_lines None), data_begin s1, data_end s1) = (Some 0, 2, 3)
       \<and> (fst (next_line s1 None), data_begin s2, data_end s2) = (Some 2, 4, 4)
       \<and> (fst (next_line s2 None), data_begin s3, data_end s3) = (None, 4, 4))"
proof -
  let ?s1 = "fst (snd (next_line two_lines None))"
  let ?s2 = "fst (snd (next_line ?s1 None))"
  let ?s3 = "fst (snd (next_line ?s2 None))"
  have r: "reachable ?s3"
    unfolding two_lines_def by (intro reachable_next_line reach_init)
  have e0: "(data_begin two_lines, data_end two_lines) = (0, 3)"
    by (simp add: two_lines_def reader_eval)
  have e1: "(fst (next_line two_lines None), data_begin ?s1, data_end ?s1) = (Some 0, 2, 3)"
    by (simp add: two_lines_def reader_eval)
  have e2: "(fst (next_line ?s1 None), data_begin ?s2, data_end ?s2) = (Some 2, 4, 4)"
    by (simp add: two_lines_def reader_eval)
  have e3: "(fst (next_line ?s2 None), data_begin ?s3, data_end ?s3) = (None, 4, 4)"
    by (simp add: two_lines_def reader_eval)
  show ?thesis
    using cursors_invariant [OF r] r e0 e1 e2 e3 by (simp add: Let_def block_len_def)
qed

section \<open>The line length limit\<close>

text \<open>A line of \<open>2^20\<close> bytes and its newline: far below \<open>2^24 - 1\<close> bytes.\<close>

definition line_of_block_len :: string where
  "line_of_block_len = replicate (2 ^ 20) (CHR ''a'') @ [CHR 0x0A]"

lemma line_of_block_len_facts:
  "pending (init u name line_of_block_len) = line_of_block_len"
  "first_line line_of_block_len = replicate (2 ^ 20) (CHR ''a'')"
proof -
  have "take 3 line_of_block_len = ''aaa''"
    by (simp add: line_of_block_len_def numeral_3_eq_3)
  then show "pending (init u name line_of_block_len) = line_of_block_len"
    by (simp add: pending_init)
  have "takeWhile (\<lambda>c. c \<noteq> CHR 0x0A) (replicate n (CHR ''a'') @ [CHR 0x0A])
          = replicate n (CHR ''a'')" for n
    by (induction n) simp_all
  then show "first_line line_of_block_len = replicate (2 ^ 20) (CHR ''a'')"
    by (simp add: first_line_def line_of_block_len_def)
qed

text \<open>
  C3. \<open>next_line\<close> makes the \<open>line_length_limit_exceeded\<close> error, with the file name
  and the line number 1, for a first line of \<open>2^20\<close> bytes: the limit the code enforces
  is \<open>block_len - 1 = 2^20 - 1\<close> bytes (\<open>next_line_long\<close>, \<open>next_line_short\<close>), not the
  \<open>2^24 - 1\<close> of its message.
\<close>

theorem line_of_block_len_is_too_long:
  "int (length line_of_block_len) < 2 ^ 24 - 1
   \<and> fst (next_line (init u name line_of_block_len) None) = None
   \<and> snd (snd (next_line (init u name line_of_block_len) None))
       = Some (set_file_line 1 (set_file_name (truncate_file_name name)
                (make_shared line_length_limit_exceeded)))"
proof -
  let ?s = "init u name line_of_block_len"
  have "line_of_block_len \<noteq> []" by (simp add: line_of_block_len_def)
  then have ne: "pending ?s \<noteq> []" unfolding line_of_block_len_facts(1) .
  have long: "block_len \<le> int (length (first_line (pending ?s)))"
    by (simp add: line_of_block_len_facts block_len_def)
  have "file_line ?s = 0" "file_name ?s = truncate_file_name name"
    by (simp_all add: init_def LineReader_new_def read_def Let_def)
  then show ?thesis
    using next_line_long [OF streaming_init ne long]
    by (simp add: line_of_block_len_def)
qed


section \<open>Well-formed lines\<close>

text \<open>
  A field of a well-formed line, for each quote policy: without quoting, any bytes but
  the separator and \<open>NUL\<close>; with quoting, a sequence of such bytes other than the
  quote and of quoted runs, a quoted run being a quote, any bytes but the quote and
  \<open>NUL\<close>, and a quote (a doubled quote inside a quoted field is two adjacent runs).
  A line is its fields joined by the separator.
\<close>

fun policy_ok :: "quote_policy \<Rightarrow> bool" where
  "policy_ok (no_quote_escape sep) = (sep \<noteq> NUL)"
| "policy_ok (double_quote_escape sep quote) = (sep \<noteq> NUL \<and> quote \<noteq> NUL \<and> sep \<noteq> quote)"

fun separator :: "quote_policy \<Rightarrow> char" where
  "separator (no_quote_escape sep) = sep"
| "separator (double_quote_escape sep quote) = sep"

inductive field_ok :: "quote_policy \<Rightarrow> string \<Rightarrow> bool" where
  field_empty: "field_ok qp []"
| field_byte: "c \<noteq> sep \<Longrightarrow> c \<noteq> NUL \<Longrightarrow> field_ok (no_quote_escape sep) f
     \<Longrightarrow> field_ok (no_quote_escape sep) (c # f)"
| field_plain: "c \<noteq> sep \<Longrightarrow> c \<noteq> NUL \<Longrightarrow> c \<noteq> quote \<Longrightarrow> field_ok (double_quote_escape sep quote) f
     \<Longrightarrow> field_ok (double_quote_escape sep quote) (c # f)"
| field_quoted: "quote \<notin> set body \<Longrightarrow> NUL \<notin> set body \<Longrightarrow> field_ok (double_quote_escape sep quote) f
     \<Longrightarrow> field_ok (double_quote_escape sep quote) (quote # body @ quote # f)"

fun join :: "char \<Rightarrow> string list \<Rightarrow> string" where
  "join sep [] = []"
| "join sep [f] = f"
| "join sep (f # g # fs) = f @ sep # join sep (g # fs)"

lemma field_ok_no_quote:
  "field_ok (no_quote_escape sep) f \<longleftrightarrow> sep \<notin> set f \<and> NUL \<notin> set f"
proof
  assume "field_ok (no_quote_escape sep) f"
  then show "sep \<notin> set f \<and> NUL \<notin> set f"
    by (induction "no_quote_escape sep" f rule: field_ok.induct) auto
next
  assume "sep \<notin> set f \<and> NUL \<notin> set f"
  then show "field_ok (no_quote_escape sep) f"
    by (induction f) (auto intro: field_ok.intros)
qed

lemma field_ok_no_NUL: "field_ok qp f \<Longrightarrow> policy_ok qp \<Longrightarrow> NUL \<notin> set f"
  by (induction rule: field_ok.induct) auto

lemma dq_closed_outside:
  "sep \<noteq> quote \<Longrightarrow> quote \<noteq> NUL \<Longrightarrow> dq_closed sep quote s = dq_outside sep quote s"
  by (cases s) auto

lemma dq_inside_body:
  "quote \<notin> set body \<Longrightarrow> NUL \<notin> set body \<Longrightarrow>
   dq_inside sep quote (body @ quote # t) = map_option (\<lambda>n. n + Suc (length body)) (dq_closed sep quote t)"
  by (induction body) (auto simp: option.map_comp comp_def)

lemma find_end_of_field:
  assumes "field_ok qp f" "policy_ok qp" "t = [] \<or> hd t = separator qp"
  shows "find_next_column_end qp (f @ t) = Some (length f)"
  using assms
proof (induction rule: field_ok.induct)
  case (field_empty qp)
  then show ?case by (cases qp; cases t) auto
next
  case (field_byte c sep f)
  then show ?case by simp
next
  case (field_plain c sep quote f)
  then show ?case by simp
next
  case (field_quoted quote body sep f)
  then show ?case
    by (auto simp: dq_inside_body dq_closed_outside option.map_comp comp_def)
qed

lemma chop_field:
  assumes "field_ok qp f" "policy_ok qp"
  shows "chop_next_column qp (Some (f @ separator qp # rest)) None = (True, Some rest, f, None)"
    and "chop_next_column qp (Some f) None = (True, None, f, None)"
proof -
  have sep: "separator qp \<noteq> NUL" using assms(2) by (cases qp) auto
  have "find_next_column_end qp (f @ separator qp # rest) = Some (length f)"
    using find_end_of_field [OF assms, of "separator qp # rest"] by simp
  then show "chop_next_column qp (Some (f @ separator qp # rest)) None = (True, Some rest, f, None)"
    using sep by (simp add: chop_next_column_def)
  have "find_next_column_end qp f = Some (length f)"
    using find_end_of_field [OF assms, of "[]"] by simp
  then show "chop_next_column qp (Some f) None = (True, None, f, None)"
    by (simp add: chop_next_column_def)
qed

text \<open>
  \<open>cook\<close> is what the tokenizer makes of a raw field (trim, then unescape);
  \<open>store_columns\<close> is where \<open>parse_line\<close> puts the columns; \<open>resolve_columns\<close> is the
  header resolution on the list of header columns: a column equal to a declared name
  not yet claimed is recorded, one equal to a claimed name is a duplicate, an unknown
  one is ignored or an extra column, and at the end each unclaimed name is missing.
\<close>

definition cook :: "char list \<Rightarrow> quote_policy \<Rightarrow> string \<Rightarrow> string" where
  "cook tp qp f = unescape qp (trim tp f)"

definition line_of :: "quote_policy \<Rightarrow> string list \<Rightarrow> string option" where
  "line_of qp fs = (if fs = [] then None else Some (join (separator qp) fs))"

fun store_columns :: "int list \<Rightarrow> string list \<Rightarrow> string option list \<Rightarrow> string option list" where
  "store_columns (i # order) (c # cs) sorted_col =
     store_columns order cs (if i \<noteq> - 1 then sorted_col[nat i := Some c] else sorted_col)"
| "store_columns order cs sorted_col = sorted_col"

fun resolve_columns ::
  "string list \<Rightarrow> ignore_column \<Rightarrow> string list \<Rightarrow> int list \<Rightarrow> bool list
     \<Rightarrow> bool \<times> int list \<times> error option" where
  "resolve_columns names ignore_policy [] order claimed =
     (if ignore_policy AND ignore_missing_column = 0 then
        (case find_not_found claimed 0 of
           Some i \<Rightarrow> (False, order,
             Some (set_column_name (c_str (names ! i)) (make_shared missing_column_in_header)))
         | None \<Rightarrow> (True, order, None))
      else (True, order, None))"
| "resolve_columns names ignore_policy (c # cs) order claimed =
     (case find_col_name c names 0 of
        Some i \<Rightarrow>
          if claimed ! i
          then (False, order, Some (set_column_name c (make_shared duplicated_column_in_header)))
          else resolve_columns names ignore_policy cs (order @ [int i]) (claimed[i := True])
      | None \<Rightarrow>
          if ignore_policy AND ignore_extra_column \<noteq> 0
          then resolve_columns names ignore_policy cs (order @ [- 1]) claimed
          else (False, order, Some (set_column_name c (make_shared extra_column_in_header))))"

lemma chop_line_of:
  assumes "field_ok qp f" "policy_ok qp"
  shows "chop_next_column qp (line_of qp (f # fs)) None = (True, line_of qp fs, f, None)"
proof (cases fs)
  case Nil
  then show ?thesis using chop_field(2) [OF assms] by (simp add: line_of_def)
next
  case (Cons g gs)
  then show ?thesis using chop_field(1) [OF assms] by (simp add: line_of_def)
qed

lemma line_of_None: "line_of qp fs = None \<longleftrightarrow> fs = []"
  by (simp add: line_of_def)

lemma parse_line_loop_fields:
  assumes "policy_ok qp" "list_all (field_ok qp) fs"
  shows "parse_line_loop tp qp order (line_of qp fs) sorted_col =
     (if length fs = length order
      then (True, store_columns order (map (cook tp qp) fs) sorted_col, None)
      else if length fs < length order
      then (False, store_columns order (map (cook tp qp) fs) sorted_col, Some (make_shared too_few_columns))
      else (False, store_columns order (map (cook tp qp) fs) sorted_col, Some (make_shared too_many_columns)))"
  using assms(2)
proof (induction order arbitrary: fs sorted_col)
  case Nil
  then show ?case by (cases fs) (simp_all add: line_of_None)
next
  case (Cons i order)
  note IH = Cons.IH and prems = Cons.prems
  show ?case
  proof (cases fs)
    case Nil
    then show ?thesis by (simp add: line_of_None)
  next
    case fs: (Cons f fs')
    then have f: "field_ok qp f" and fs': "list_all (field_ok qp) fs'"
      using prems by simp_all
    obtain l where l: "line_of qp (f # fs') = Some l" by (simp add: line_of_def)
    have chop: "chop_next_column qp (Some l) None = (True, line_of qp fs', f, None)"
      using chop_line_of [OF f assms(1), of fs'] l by simp
    have "parse_line_loop tp qp (i # order) (Some l) sorted_col
            = parse_line_loop tp qp order (line_of qp fs')
                (if i \<noteq> - 1 then sorted_col[nat i := Some (cook tp qp f)] else sorted_col)"
      by (simp add: chop cook_def)
    then show ?thesis
      unfolding fs l by (simp add: IH [OF fs'])
  qed
qed

lemma parse_header_loop_fields:
  assumes "policy_ok qp" "list_all (field_ok qp) hs"
  shows "parse_header_loop tp qp names ignore_policy (line_of qp hs) order found
           = resolve_columns names ignore_policy (map (cook tp qp) hs) order found"
  using assms(2)
proof (induction hs arbitrary: order found)
  case Nil
  then show ?case by (simp add: line_of_None [THEN iffD2])
next
  case (Cons h hs)
  then have h: "field_ok qp h" and hs: "list_all (field_ok qp) hs" by simp_all
  obtain l where l: "line_of qp (h # hs) = Some l" by (simp add: line_of_def)
  have chop: "chop_next_column qp (Some l) None = (True, line_of qp hs, h, None)"
    using chop_line_of [OF h assms(1), of hs] l by simp
  show ?case
    unfolding l
    by (simp add: chop Cons.IH [OF hs] cook_def Let_def split: option.splits)
qed

section \<open>A duplicated header column\<close>

definition order_entry :: "string list \<Rightarrow> string \<Rightarrow> int" where
  "order_entry names c = (case find_col_name c names 0 of None \<Rightarrow> - 1 | Some i \<Rightarrow> int i)"

definition zeroed :: "int \<Rightarrow> char" where
  "zeroed i = NUL"

lemma find_col_name_Some:
  "find_col_name c names k = Some i \<Longrightarrow> k \<le> i \<and> i - k < length names \<and> names ! (i - k) = c"
proof (induction names arbitrary: k)
  case Nil
  then show ?case by simp
next
  case (Cons n names)
  show ?case
  proof (cases "c = n")
    case True
    then show ?thesis using Cons.prems by simp
  next
    case False
    then have "find_col_name c names (Suc k) = Some i" using Cons.prems by simp
    from Cons.IH [OF this] show ?thesis by (auto simp: Suc_diff_le)
  qed
qed

lemma find_col_name_None: "find_col_name c names k = None \<longleftrightarrow> c \<notin> set names"
  by (induction names arbitrary: k) auto

lemma join_Cons: "fs \<noteq> [] \<Longrightarrow> join sep (f # fs) = f @ sep # join sep fs"
  by (cases fs) simp_all

lemma chop_before_tail:
  assumes "field_ok qp f" "policy_ok qp" "tail = [] \<or> hd tail = separator qp"
  shows "\<exists>rest. chop_next_column qp (Some (f @ tail)) None = (True, rest, f, None)"
proof (cases tail)
  case Nil
  then show ?thesis using chop_field(2) [OF assms(1,2)] by simp
next
  case (Cons c rest)
  then show ?thesis using chop_field(1) [OF assms(1,2), of rest] assms(3) by simp
qed

lemma parse_header_loop_duplicate:
  assumes "policy_ok qp"
    and "list_all (field_ok qp) (hs @ [h])"
    and "tail = [] \<or> hd tail = separator qp"
    and "cook tp qp h = d"
    and "distinct (filter (\<lambda>c. c \<in> set names) (seen @ map (cook tp qp) hs))"
    and "\<forall>c \<in> set (map (cook tp qp) hs). c \<in> set names \<or> ignore_policy AND ignore_extra_column \<noteq> 0"
    and "d \<in> set seen \<union> set (map (cook tp qp) hs)" "d \<in> set names"
    and "length claimed = length names"
    and "\<forall>i < length names. claimed ! i \<longleftrightarrow> (\<exists>c \<in> set seen. find_col_name c names 0 = Some i)"
  shows "parse_header_loop tp qp names ignore_policy (Some (join (separator qp) (hs @ [h]) @ tail))
           order claimed
         = (False, order @ map (order_entry names) (map (cook tp qp) hs),
            Some (set_column_name d (make_shared duplicated_column_in_header)))"
  using assms(2,5-10)
proof (induction hs arbitrary: seen order claimed)
  case Nil
  then have "d \<in> set seen" by simp
  obtain i where i: "find_col_name d names 0 = Some i"
    using \<open>d \<in> set names\<close> find_col_name_None [of d names 0] by (cases "find_col_name d names 0") auto
  then have "i < length names" using find_col_name_Some [OF i] by simp
  then have "claimed ! i" using Nil.prems(7) \<open>d \<in> set seen\<close> i by blast
  moreover obtain rest where "chop_next_column qp (Some (h @ tail)) None = (True, rest, h, None)"
    using chop_before_tail [OF _ assms(1,3), of h] Nil.prems(1) by auto
  ultimately show ?case using i assms(4) by (simp add: cook_def)
next
  case (Cons g hs)
  let ?c = "cook tp qp g"
  have g: "field_ok qp g" and hs: "list_all (field_ok qp) (hs @ [h])" using Cons.prems(1) by simp_all
  have line: "join (separator qp) ((g # hs) @ [h]) @ tail
                = g @ separator qp # (join (separator qp) (hs @ [h]) @ tail)"
    by (simp add: join_Cons)
  have chop: "chop_next_column qp (Some (join (separator qp) ((g # hs) @ [h]) @ tail)) None
                = (True, Some (join (separator qp) (hs @ [h]) @ tail), g, None)"
    unfolding line by (rule chop_field(1) [OF g assms(1)])
  have dist: "distinct (filter (\<lambda>c. c \<in> set names) ((seen @ [?c]) @ map (cook tp qp) hs))"
    using Cons.prems(2) by simp
  have rest: "\<forall>c \<in> set (map (cook tp qp) hs). c \<in> set names \<or> ignore_policy AND ignore_extra_column \<noteq> 0"
    using Cons.prems(3) by auto
  have d: "d \<in> set (seen @ [?c]) \<union> set (map (cook tp qp) hs)" using Cons.prems(4) by auto
  show ?case
  proof (cases "find_col_name ?c names 0")
    case None
    then have flag: "ignore_policy AND ignore_extra_column \<noteq> 0"
      using Cons.prems(3) find_col_name_None [of ?c names 0] by auto
    have inv: "\<forall>i < length names. claimed ! i
                 \<longleftrightarrow> (\<exists>c \<in> set (seen @ [?c]). find_col_name c names 0 = Some i)"
      using Cons.prems(7) None by auto
    show ?thesis
      using None flag Cons.IH [OF hs dist rest d Cons.prems(5) Cons.prems(6) inv, of "order @ [- 1]"] chop
      by (simp add: order_entry_def cook_def)
  next
    case (Some i)
    note fi = find_col_name_Some [OF Some]
    have declared: "?c \<in> set names" using fi by (metis diff_zero nth_mem)
    have "\<not> claimed ! i"
    proof
      assume "claimed ! i"
      then obtain c' where c': "c' \<in> set seen" "find_col_name c' names 0 = Some i"
        using Cons.prems(7) fi by auto
      then have "c' = ?c" using find_col_name_Some [OF c'(2)] fi by simp
      then show False using c'(1) Cons.prems(2) declared by auto
    qed
    have len: "length (claimed[i := True]) = length names" using Cons.prems(6) by simp
    have inv: "\<forall>j < length names. (claimed[i := True]) ! j
                 \<longleftrightarrow> (\<exists>c \<in> set (seen @ [?c]). find_col_name c names 0 = Some j)"
      using Cons.prems(6,7) Some fi by (auto simp: nth_list_update)
    show ?thesis
      using Some \<open>\<not> claimed ! i\<close> Cons.IH [OF hs dist rest d Cons.prems(5) len inv, of "order @ [int i]"] chop
      by (simp add: order_entry_def cook_def)
  qed
qed

text \<open>
  C8, amended. Let the header line start with well-formed columns up to a column that,
  trimmed and unescaped, is a declared name \<open>d\<close>; let the columns before it be each a
  declared name (or unknown, with \<open>ignore_extra_column\<close>), the declared names among them
  pairwise different, and \<open>d\<close> one of them; what follows that column is arbitrary. Then
  \<open>read_header\<close> fails with \<open>duplicated_column_in_header\<close> naming \<open>d\<close>, with the file
  name set. The reader keeps the column order built for the columns before \<open>d\<close>; a
  \<open>read_row\<close> given the pending error returns at once and reads no line.
\<close>

theorem duplicated_header_column:
  assumes "read_header_line (comment_policy r) (in_reader r) None = (Some line, s', None)"
    and "policy_ok (quote_policy r)"
    and "line = join (separator (quote_policy r)) (hs @ [h]) @ tail"
    and "tail = [] \<or> hd tail = separator (quote_policy r)"
    and "list_all (field_ok (quote_policy r)) (hs @ [h])"
    and "map (cook (trim_policy r) (quote_policy r)) hs = pre"
    and "cook (trim_policy r) (quote_policy r) h = d"
    and "distinct (filter (\<lambda>c. c \<in> set names) pre)"
    and "\<forall>c \<in> set pre. c \<in> set names \<or> ignore_policy AND ignore_extra_column \<noteq> 0"
    and "d \<in> set pre" "d \<in> set names"
    and "column_count r = length names"
  shows "read_header ignore_policy None names r =
           (False,
            r\<lparr>column_names := names, in_reader := s', col_order := map (order_entry names) pre\<rparr>,
            Some (format_error_message (set_file_name (file_name s')
                    (set_column_name d (make_shared duplicated_column_in_header)))))
         \<and> read_row r' (Some e) cols = (False, r', cols, Some e)"
proof -
  let ?qp = "quote_policy r" and ?tp = "trim_policy r"
  have "parse_header_loop ?tp ?qp names ignore_policy (Some line) [] (replicate (column_count r) False)
          = (False, [] @ map (order_entry names) (map (cook ?tp ?qp) hs),
              Some (set_column_name d (make_shared duplicated_column_in_header)))"
    unfolding assms(3)
  proof (rule parse_header_loop_duplicate [where seen = "[]"])
    show "length (replicate (column_count r) False) = length names"
      using assms(12) by simp
  qed (use assms in auto)
  then show ?thesis
    using assms(1,6) by (simp add: read_header_def parse_header_line_def read_row_def)
qed

definition comma_reader :: "nat \<Rightarrow> string \<Rightarrow> string \<Rightarrow> CSVReader" where
  "comma_reader n name data =
     CSVReader_new n [CHR '' '', CHR 0x09] (no_quote_escape (CHR '','')) set_to_max_on_overflow
       no_comment zeroed name data"

lemmas comma_reader_eval = comma_reader_def zeroed_def reader_eval

text \<open>
  The claim fails in both halves. Where an earlier column is in error, that error is the
  one reported: the header \<open>x,a,a\<close> with the one declared name \<open>a\<close> gives
  \<open>extra_column_in_header\<close>. And the column order of a failed call is used by the next
  \<open>read_row\<close> that is given an empty error slot: after the header \<open>a,a\<close> has failed with
  \<open>duplicated_column_in_header\<close>, the order is \<open>[0]\<close> and the row \<open>8\<close> is read with it.
\<close>

theorem duplicated_header_column_counterexample:
  "fst (read_header ignore_no_column None [''a'']
          (comma_reader 1 ''4.csv'' (''x,a,a'' @ [CHR 0x0A]))) = False
   \<and> map_option kind (snd (snd (read_header ignore_no_column None [''a'']
          (comma_reader 1 ''4.csv'' (''x,a,a'' @ [CHR 0x0A])))))
       = Some extra_column_in_header
   \<and> fst (read_header ignore_no_column None [''a'']
          (comma_reader 1 ''4.csv'' (''a,a'' @ [CHR 0x0A] @ ''8'' @ [CHR 0x0A]))) = False
   \<and> map_option kind (snd (snd (read_header ignore_no_column None [''a'']
          (comma_reader 1 ''4.csv'' (''a,a'' @ [CHR 0x0A] @ ''8'' @ [CHR 0x0A])))))
       = Some duplicated_column_in_header
   \<and> col_order (fst (snd (read_header ignore_no_column None [''a'']
          (comma_reader 1 ''4.csv'' (''a,a'' @ [CHR 0x0A] @ ''8'' @ [CHR 0x0A]))))) = [0]
   \<and> fst (read_row (fst (snd (read_header ignore_no_column None [''a'']
          (comma_reader 1 ''4.csv'' (''a,a'' @ [CHR 0x0A] @ ''8'' @ [CHR 0x0A])))))
        None [Unsigned_cell (unsigned_limits 32) 0]) = True
   \<and> fst (snd (snd (read_row (fst (snd (read_header ignore_no_column None [''a'']
          (comma_reader 1 ''4.csv'' (''a,a'' @ [CHR 0x0A] @ ''8'' @ [CHR 0x0A])))))
        None [Unsigned_cell (unsigned_limits 32) 0])))
       = [Unsigned_cell (unsigned_limits 32) 8]"
  by (simp add: comma_reader_eval format_error_message_def read_row_def parse_unsigned_integer_def
      is_digit_def digit_of_def unsigned_limits_def)

text \<open>
  The header \<open>x,x,a,a,z\<close> with the one declared name \<open>a\<close> and \<open>ignore_extra_column\<close>: the
  unknown column is repeated before the repeated declared one.
\<close>

theorem duplicated_header_column_witness:
  "fst (read_header_line no_comment
          (in_reader (comma_reader 1 ''4.csv'' (''x,x,a,a,z'' @ [CHR 0x0A]))) None)
      = Some (join (CHR '','') ([''x'', ''x'', ''a''] @ [''a'']) @ '',z'')
   \<and> list_all (field_ok (no_quote_escape (CHR '',''))) ([''x'', ''x'', ''a''] @ [''a''])
   \<and> map (cook [CHR '' '', CHR 0x09] (no_quote_escape (CHR '',''))) [''x'', ''x'', ''a'']
       = [''x'', ''x'', ''a'']
   \<and> fst (read_header ignore_extra_column None [''a'']
             (comma_reader 1 ''4.csv'' (''x,x,a,a,z'' @ [CHR 0x0A]))) = False
   \<and> col_order (fst (snd (read_header ignore_extra_column None [''a'']
             (comma_reader 1 ''4.csv'' (''x,x,a,a,z'' @ [CHR 0x0A]))))) = [- 1, - 1, 0]
   \<and> map_option kind (snd (snd (read_header ignore_extra_column None [''a'']
             (comma_reader 1 ''4.csv'' (''x,x,a,a,z'' @ [CHR 0x0A])))))
       = Some duplicated_column_in_header
   \<and> map_option get_column_name (snd (snd (read_header ignore_extra_column None [''a'']
             (comma_reader 1 ''4.csv'' (''x,x,a,a,z'' @ [CHR 0x0A])))))
       = Some ''a''"
proof -
  let ?r = "comma_reader 1 ''4.csv'' (''x,x,a,a,z'' @ [CHR 0x0A])"
  let ?qp = "no_quote_escape (CHR '','')"
  let ?X = "read_header_line no_comment (in_reader ?r) None"
  have line: "fst ?X = Some ''x,x,a,a,z''" "snd (snd ?X) = None"
    by (simp_all add: comma_reader_eval)
  have h1: "read_header_line (comment_policy ?r) (in_reader ?r) None
              = (Some ''x,x,a,a,z'', fst (snd ?X), None)"
    using line by (simp add: comma_reader_eval prod_eq_iff)
  have h2: "policy_ok (quote_policy ?r)" by (simp add: comma_reader_eval)
  have h3: "''x,x,a,a,z'' = join (separator (quote_policy ?r)) ([''x'', ''x'', ''a''] @ [''a'']) @ '',z''"
    by (simp add: comma_reader_eval)
  have h4: "'',z'' = [] \<or> hd '',z'' = separator (quote_policy ?r)"
    by (simp add: comma_reader_eval)
  have h5: "list_all (field_ok (quote_policy ?r)) ([''x'', ''x'', ''a''] @ [''a''])"
    by (simp add: comma_reader_eval field_ok_no_quote)
  have h6: "map (cook (trim_policy ?r) (quote_policy ?r)) [''x'', ''x'', ''a''] = [''x'', ''x'', ''a'']"
    and h7: "cook (trim_policy ?r) (quote_policy ?r) ''a'' = ''a''"
    by (simp_all add: comma_reader_eval cook_def)
  have h8: "distinct (filter (\<lambda>c. c \<in> set [''a'']) [''x'', ''x'', ''a''])" by simp
  have h9: "\<forall>c \<in> set [''x'', ''x'', ''a'']. c \<in> set [''a'']
              \<or> ignore_extra_column AND ignore_extra_column \<noteq> 0"
    by (simp add: ignore_extra_column_def)
  have h12: "column_count ?r = length [''a'']" by (simp add: comma_reader_eval)
  note th = duplicated_header_column [OF h1 h2 h3 h4 h5 h6 h7 h8 h9 _ _ h12,
      of ?r "make_shared no_digit" "[]"]
  have "order_entry [''a''] ''a'' = 0" "order_entry [''a''] ''x'' = - 1"
    by (simp_all add: order_entry_def)
  then show ?thesis
    using th line h5 h6
    by (simp add: comma_reader_def CSVReader_new_def format_error_message_def set_file_name_def
        set_column_name_def set_error_def make_shared_def)
qed

section \<open>A negative number for an unsigned variable\<close>

lemma parse_unsigned_loop_success:
  "parse_unsigned_loop pol lim col x = (True, x', e) \<Longrightarrow> e = None"
  by (induction col arbitrary: x) (auto simp: Let_def split: if_splits)

lemma parse_negative_loop_success:
  "parse_negative_loop pol lim col x = (True, x', e) \<Longrightarrow> e = None"
  by (induction col arbitrary: x) (auto simp: Let_def split: if_splits)

lemma parse_success_no_error:
  "parse pol col t None = (True, t', e) \<Longrightarrow> e = None"
  by (cases t)
     (auto simp: parse_char_def parse_string_def parse_unsigned_integer_def parse_signed_integer_def
        split: if_splits list.splits prod.splits
        dest: parse_unsigned_loop_success parse_negative_loop_success)

lemma parse_helper_fails_at:
  assumes "k < length cols" "row_ptr ! (r + k) = Some col"
    and "parse pol col (cols ! k) None = (False, t', Some e)"
    and "\<forall>j<k. \<forall>c. row_ptr ! (r + j) = Some c \<longrightarrow> fst (parse pol c (cols ! j) None)"
  shows "\<exists>cols'. parse_helper pol row_ptr names r cols None
           = (False, cols', Some (set_column_name (c_str (names ! (r + k))) (set_column_content col e)))
         \<and> length cols' = length cols \<and> cols' ! k = t'"
  using assms
proof (induction k arbitrary: r cols)
  case 0
  then obtain t cs where "cols = t # cs" by (cases cols) auto
  then show ?case using 0 by simp
next
  case (Suc k)
  then obtain t cs where cols: "cols = t # cs" by (cases cols) auto
  have IH: "\<exists>cols'. parse_helper pol row_ptr names (Suc r) cs None
           = (False, cols', Some (set_column_name (c_str (names ! (Suc r + k))) (set_column_content col e)))
         \<and> length cols' = length cs \<and> cols' ! k = t'"
    using Suc.prems cols by (intro Suc.IH) auto
  have first: "\<forall>c. row_ptr ! r = Some c \<longrightarrow> fst (parse pol c t None)"
    using Suc.prems(4) [rule_format, of 0] cols by simp
  show ?case
  proof (cases "row_ptr ! r")
    case None
    then show ?thesis using IH cols by auto
  next
    case (Some c)
    obtain ok t1 e1 where p: "parse pol c t None = (ok, t1, e1)" by (cases "parse pol c t None") auto
    then have "ok" using first Some by simp
    then have "e1 = None" using p parse_success_no_error [of pol c t t1 e1] by simp
    then show ?thesis using IH cols Some p \<open>ok\<close> by auto
  qed
qed

text \<open>
  C4. A column that starts with \<open>-\<close> fails to parse as an unsigned integer with
  \<open>integer_must_be_positive\<close>, the output variable unchanged. In \<open>read_row\<close>, when the
  line is tokenized, the columns before parse and column \<open>k\<close> is such a column for an
  unsigned variable, the call fails, the variable \<open>k\<close> keeps its value, and the error
  carries the column as its content, the column name, the file name and the line.
\<close>

theorem negative_into_unsigned:
  assumes "read_row_line (comment_policy r) (in_reader r) None = (Some line, s', None)"
    and "parse_line (trim_policy r) (quote_policy r) line (row r) (col_order r) None = (True, row', None)"
    and "k < length cols" "cols ! k = Unsigned_cell lim x" "row' ! k = Some (CHR ''-'' # rest)"
    and "\<forall>j<k. \<forall>c. row' ! j = Some c \<longrightarrow> fst (parse (overflow_policy r) c (cols ! j) None)"
  shows "parse_unsigned_integer pol lim (CHR ''-'' # rest) x None
           = (False, x, Some (make_shared integer_must_be_positive))
       \<and> fst (read_row r None cols) = False
       \<and> fst (snd (snd (read_row r None cols))) ! k = Unsigned_cell lim x
       \<and> snd (snd (snd (read_row r None cols)))
           = Some (locate_error s' (set_column_name (c_str (column_names r ! k))
               (set_column_content (CHR ''-'' # rest) (make_shared integer_must_be_positive))))
       \<and> get_column_content (locate_error s' (set_column_name (c_str (column_names r ! k))
               (set_column_content (CHR ''-'' # rest) (make_shared integer_must_be_positive))))
           = CHR ''-'' # rest"
proof -
  have p: "parse (overflow_policy r) (CHR ''-'' # rest) (cols ! k) None
             = (False, Unsigned_cell lim x, Some (make_shared integer_must_be_positive))"
    using assms(4) by (simp add: parse_unsigned_integer_def)
  obtain cols' where h: "parse_helper (overflow_policy r) row' (column_names r) 0 cols None
      = (False, cols', Some (set_column_name (c_str (column_names r ! k))
               (set_column_content (CHR ''-'' # rest) (make_shared integer_must_be_positive))))"
    "cols' ! k = Unsigned_cell lim x"
    using parse_helper_fails_at [of k cols row' 0 _ "overflow_policy r" _ _ "column_names r",
        OF assms(3) _ p] assms(5,6)
    by auto
  show ?thesis
    using assms(1,2) h
    by (simp add: read_row_def parse_unsigned_integer_def locate_error_def format_error_message_def
        set_file_line_def set_file_name_def set_column_name_def set_column_content_def
        set_error_def make_shared_def)
qed

definition minus_one_file :: string where
  "minus_one_file = ''a,b'' @ [CHR 0x0A] @ ''1,-1'' @ [CHR 0x0A]"

definition minus_one_reader :: CSVReader where
  "minus_one_reader =
     fst (snd (read_header ignore_no_column None [''a'', ''b''] (comma_reader 2 ''9.csv'' minus_one_file)))"

definition size_t_cell :: cell where
  "size_t_cell = Unsigned_cell (unsigned_limits 64) 7"

theorem negative_into_unsigned_witness:
  "fst (read_row_line no_comment (in_reader minus_one_reader) None) = Some ''1,-1''
   \<and> fst (snd (parse_line [CHR '' '', CHR 0x09] (no_quote_escape (CHR '','')) ''1,-1''
        (row minus_one_reader) (col_order minus_one_reader) None)) = [Some ''1'', Some ''-1'']
   \<and> fst (parse set_to_max_on_overflow ''1'' size_t_cell None)
   \<and> fst (read_row minus_one_reader None [size_t_cell, size_t_cell]) = False
   \<and> fst (snd (snd (read_row minus_one_reader None [size_t_cell, size_t_cell]))) ! 1 = size_t_cell
   \<and> map_option kind (snd (snd (snd (read_row minus_one_reader None [size_t_cell, size_t_cell]))))
       = Some integer_must_be_positive
   \<and> map_option get_column_content (snd (snd (snd (read_row minus_one_reader None [size_t_cell, size_t_cell]))))
       = Some ''-1''
   \<and> map_option get_file_line (snd (snd (snd (read_row minus_one_reader None [size_t_cell, size_t_cell]))))
       = Some 2"
proof -
  let ?r = minus_one_reader
  let ?X = "read_row_line no_comment (in_reader ?r) None"
  let ?row = "[Some ''1'', Some ''-1'']"
  let ?cols = "[size_t_cell, size_t_cell]"
  have r: "comment_policy ?r = no_comment" "trim_policy ?r = [CHR '' '', CHR 0x09]"
    "quote_policy ?r = no_quote_escape (CHR '','')" "overflow_policy ?r = set_to_max_on_overflow"
    "column_names ?r = [''a'', ''b'']" "col_order ?r = [0, 1]" "row ?r = [None, None]"
    by (simp_all add: minus_one_reader_def minus_one_file_def comma_reader_eval numeral_2_eq_2)
  have line: "fst ?X = Some ''1,-1''" "snd (snd ?X) = None" "file_line (fst (snd ?X)) = 2"
    "file_name (fst (snd ?X)) = ''9.csv''"
    by (simp_all add: minus_one_reader_def minus_one_file_def comma_reader_eval numeral_2_eq_2)
  have h1: "read_row_line (comment_policy ?r) (in_reader ?r) None = (Some ''1,-1'', fst (snd ?X), None)"
    using line(1,2) by (simp add: r prod_eq_iff)
  have h2: "parse_line (trim_policy ?r) (quote_policy ?r) ''1,-1'' (row ?r) (col_order ?r) None
              = (True, ?row, None)"
    by (simp add: r parse_line_def chop_next_column_def trim_def NUL_def)
  have h4: "?cols ! 1 = Unsigned_cell (unsigned_limits 64) 7" by (simp add: size_t_cell_def)
  have ok: "fst (parse set_to_max_on_overflow ''1'' size_t_cell None)"
    by (simp add: size_t_cell_def parse_unsigned_integer_def is_digit_def digit_of_def
        unsigned_limits_def NUL_def)
  have h6: "\<forall>j<1. \<forall>c. ?row ! j = Some c \<longrightarrow> fst (parse (overflow_policy ?r) c (?cols ! j) None)"
    using ok by (simp add: r)
  note th = negative_into_unsigned [OF h1 h2 _ h4 _ h6, of "''1''" set_to_max_on_overflow]
  show ?thesis
    using th line ok h2
    by (simp add: r size_t_cell_def locate_error_def format_error_message_def
        set_file_line_def set_file_name_def set_column_name_def set_column_content_def
        set_error_def make_shared_def)
qed

section \<open>Reading a well-formed file\<close>

subsection \<open>Lines\<close>

text \<open>
  A line ends with \<open>\n\<close> or \<open>\r\n\<close>. Its text \<open>l\<close> holds no newline and no NUL,
  does not end with a carriage return of its own, and is shorter than a block together with
  its ending. The last line of a file may have no ending when it is not empty.
\<close>

definition eol_ok :: "string \<Rightarrow> bool" where
  "eol_ok e = (e = [CHR 0x0A] \<or> e = [CHR 0x0D, CHR 0x0A])"

definition text_ok :: "string \<Rightarrow> string \<Rightarrow> bool" where
  "text_ok l e =
     (CHR 0x0A \<notin> set l \<and> NUL \<notin> set l \<and> (l = [] \<or> last l \<noteq> CHR 0x0D)
      \<and> int (length l + length e) \<le> block_len \<and> int (length l) < block_len)"

lemma c_str_no_NUL: "NUL \<notin> set l \<Longrightarrow> c_str l = l"
  by (auto simp: c_str_def takeWhile_eq_all_conv)

lemma first_line_append:
  "CHR 0x0A \<notin> set l \<Longrightarrow> first_line (l @ CHR 0x0A # rest) = l"
  by (induction l) (auto simp: first_line_def)

lemma first_line_all: "CHR 0x0A \<notin> set l \<Longrightarrow> first_line l = l"
  by (auto simp: first_line_def takeWhile_eq_all_conv)

lemma next_line_text:
  assumes "streaming s" "pending s = l @ e @ rest" "text_ok l e"
    and "eol_ok e \<or> (e = [] \<and> rest = [] \<and> l \<noteq> [])"
  shows "\<exists>p s'. next_line s None = (Some p, s', None) \<and> c_str_at (buffer s') p = l
           \<and> streaming s' \<and> pending s' = rest \<and> file_line s' = file_line s + 1
           \<and> file_name s' = file_name s"
proof -
  have l: "CHR 0x0A \<notin> set l" "NUL \<notin> set l" "l = [] \<or> last l \<noteq> CHR 0x0D"
    "int (length l + length e) \<le> block_len" "int (length l) < block_len"
    using assms(3) by (auto simp: text_ok_def)
  define fl where "fl = first_line (pending s)"
  have ne: "pending s \<noteq> []" using assms(2,4) by (auto simp: eol_ok_def)
  have fl_cases: "(fl = l \<and> drop (Suc (length fl)) (pending s) = rest)
       \<or> (fl = l @ [CHR 0x0D] \<and> e = [CHR 0x0D, CHR 0x0A] \<and> drop (Suc (length fl)) (pending s) = rest)"
  proof -
    consider "e = [CHR 0x0A]" | "e = [CHR 0x0D, CHR 0x0A]" | "e = []" "rest = []"
      using assms(4) by (auto simp: eol_ok_def)
    then show ?thesis
    proof cases
      case 1
      then have "fl = l" using first_line_append [OF l(1)] assms(2) by (simp add: fl_def)
      then show ?thesis using assms(2) 1 by simp
    next
      case 2
      have "CHR 0x0A \<notin> set (l @ [CHR 0x0D])" using l(1) by simp
      then have "first_line ((l @ [CHR 0x0D]) @ CHR 0x0A # rest) = l @ [CHR 0x0D]"
        by (rule first_line_append)
      then have "fl = l @ [CHR 0x0D]" using assms(2) 2 by (simp add: fl_def)
      then show ?thesis using assms(2) 2 by simp
    next
      case 3
      then have "fl = l" using first_line_all [OF l(1)] assms(2) by (simp add: fl_def)
      then show ?thesis using assms(2) 3 by simp
    qed
  qed
  have short: "int (length (first_line (pending s))) < block_len"
    using fl_cases l(4,5) by (auto simp: fl_def)
  have strip: "c_str (strip_cr fl) = l"
    using fl_cases l(2,3) by (auto simp: strip_cr_def c_str_no_NUL)
  note nl = next_line_short [OF assms(1) ne short]
  show ?thesis
    using nl fl_cases strip by (auto simp: fl_def)
qed

lemma read_row_line_text:
  assumes "streaming s" "pending s = l @ e @ rest" "text_ok l e"
    and "eol_ok e \<or> (e = [] \<and> rest = [] \<and> l \<noteq> [])" "\<not> is_comment cp l"
  shows "\<exists>s'. read_row_line cp s None = (Some l, s', None)
           \<and> streaming s' \<and> pending s' = rest \<and> file_line s' = file_line s + 1
           \<and> file_name s' = file_name s"
  using next_line_text [OF assms(1-4)] assms(5)
  by (subst read_row_line.simps) auto

lemma read_header_line_text:
  assumes "streaming s" "pending s = l @ e @ rest" "text_ok l e"
    and "eol_ok e \<or> (e = [] \<and> rest = [] \<and> l \<noteq> [])" "\<not> is_comment cp l"
  shows "\<exists>s'. read_header_line cp s None = (Some l, s', None)
           \<and> streaming s' \<and> pending s' = rest \<and> file_line s' = file_line s + 1
           \<and> file_name s' = file_name s"
  using next_line_text [OF assms(1-4)] assms(5)
  by (subst read_header_line.simps) auto

lemma read_row_line_end:
  assumes "streaming s" "pending s = []"
  shows "read_row_line cp s None = (None, s, None)"
  using next_line_empty [OF assms] by (subst read_row_line.simps) simp

subsection \<open>The value of a field\<close>

text \<open>
  The value a cooked field denotes for an output variable of a given type: a single
  character, the text itself, a decimal numeral within the limits of the integer type
  (with a sign for a signed type). The first argument gives the type only, its content is
  not used. Floating point variables are not part of \<^typ>\<open>cell\<close>.
\<close>

fun field_value :: "cell \<Rightarrow> string \<Rightarrow> cell option" where
  "field_value (Char_cell x) f = (case f of [c] \<Rightarrow> Some (Char_cell c) | _ \<Rightarrow> None)"
| "field_value (String_cell x) f = Some (String_cell f)"
| "field_value (Unsigned_cell lim x) f =
     (if f \<noteq> [] \<and> list_all is_digit f \<and> decimal_value 0 f \<le> limits_max lim
      then Some (Unsigned_cell lim (decimal_value 0 f)) else None)"
| "field_value (Signed_cell lim x) f =
     (case f of
        [] \<Rightarrow> None
      | c # ds \<Rightarrow>
          if c = CHR ''-'' then
            (if ds \<noteq> [] \<and> list_all is_digit ds \<and> limits_min lim \<le> - decimal_value 0 ds
             then Some (Signed_cell lim (- decimal_value 0 ds)) else None)
          else if c = CHR ''+'' then
            (if ds \<noteq> [] \<and> list_all is_digit ds \<and> decimal_value 0 ds \<le> limits_max lim
             then Some (Signed_cell lim (decimal_value 0 ds)) else None)
          else
            (if list_all is_digit f \<and> decimal_value 0 f \<le> limits_max lim
             then Some (Signed_cell lim (decimal_value 0 f)) else None))"

lemma decimal_value_Cons: "decimal_value x (c # ds) = decimal_value (10 * x + digit_of c) ds"
  by (simp add: decimal_value_def)

lemma decimal_value_ge: "list_all is_digit ds \<Longrightarrow> 0 \<le> x \<Longrightarrow> x \<le> decimal_value x ds"
proof (induction ds arbitrary: x)
  case Nil
  then show ?case by (simp add: decimal_value_def)
next
  case (Cons c ds)
  have d: "0 \<le> digit_of c" using Cons.prems(1) digit_of_range [of c] by simp
  have "10 * x + digit_of c \<le> decimal_value (10 * x + digit_of c) ds"
    using Cons.prems d by (intro Cons.IH) auto
  then show ?case using d Cons.prems(2) by (simp add: decimal_value_Cons)
qed

lemma parse_unsigned_loop_value:
  "list_all is_digit ds \<Longrightarrow> 0 \<le> x \<Longrightarrow> decimal_value x ds \<le> limits_max lim \<Longrightarrow>
   parse_unsigned_loop pol lim ds x = (True, decimal_value x ds, None)"
proof (induction ds arbitrary: x)
  case Nil
  then show ?case by (simp add: decimal_value_def)
next
  case (Cons c ds)
  have d: "is_digit c" "c \<noteq> NUL" "0 \<le> digit_of c"
    using Cons.prems(1) is_digit_not_special [of c] digit_of_range [of c] by auto
  have ds: "list_all is_digit ds" using Cons.prems(1) by simp
  have nn: "0 \<le> 10 * x + digit_of c" using d Cons.prems(2) by simp
  have "10 * x + digit_of c \<le> decimal_value (10 * x + digit_of c) ds"
    by (rule decimal_value_ge [OF ds nn])
  then have "10 * x + digit_of c \<le> limits_max lim"
    using Cons.prems(3) by (simp add: decimal_value_Cons)
  then have no: "\<not> x > (limits_max lim - digit_of c) div 10" by linarith
  have "parse_unsigned_loop pol lim ds (10 * x + digit_of c)
          = (True, decimal_value (10 * x + digit_of c) ds, None)"
    using Cons.prems(3) by (intro Cons.IH [OF ds nn]) (simp add: decimal_value_Cons)
  then show ?case using d no by (simp add: Let_def decimal_value_Cons)
qed

lemma sdiv_10_le: "m \<le> 10 * x \<Longrightarrow> x \<le> 0 \<Longrightarrow> m sdiv 10 \<le> (x::int)"
proof -
  assume a: "m \<le> 10 * x" "x \<le> 0"
  then have "m \<le> 0" by simp
  then have "m sdiv 10 = - ((- m) div 10)"
    by (cases "m = 0") (simp_all add: signed_divide_int_def sgn_if)
  moreover have "- x \<le> (- m) div 10" using a by linarith
  ultimately show ?thesis by simp
qed

lemma parse_negative_loop_value:
  "list_all is_digit ds \<Longrightarrow> x \<le> 0 \<Longrightarrow> limits_min lim \<le> - decimal_value (- x) ds \<Longrightarrow>
   parse_negative_loop pol lim ds x = (True, - decimal_value (- x) ds, None)"
proof (induction ds arbitrary: x)
  case Nil
  then show ?case by (simp add: decimal_value_def)
next
  case (Cons c ds)
  have d: "is_digit c" "c \<noteq> NUL" "0 \<le> digit_of c"
    using Cons.prems(1) is_digit_not_special [of c] digit_of_range [of c] by auto
  have ds: "list_all is_digit ds" using Cons.prems(1) by simp
  have np: "10 * x - digit_of c \<le> 0" using d Cons.prems(2) by simp
  have eq: "10 * (- x) + digit_of c = - (10 * x - digit_of c)" by simp
  have "- (10 * x - digit_of c) \<le> decimal_value (- (10 * x - digit_of c)) ds"
    using np by (intro decimal_value_ge [OF ds]) simp
  then have "limits_min lim \<le> 10 * x - digit_of c"
    using Cons.prems(3) by (simp add: decimal_value_Cons eq)
  then have "(limits_min lim + digit_of c) sdiv 10 \<le> x"
    using Cons.prems(2) by (intro sdiv_10_le) simp_all
  then have no: "\<not> x < (limits_min lim + digit_of c) sdiv 10" by simp
  have "parse_negative_loop pol lim ds (10 * x - digit_of c)
          = (True, - decimal_value (- (10 * x - digit_of c)) ds, None)"
    using Cons.prems(3) by (intro Cons.IH [OF ds np]) (simp add: decimal_value_Cons eq)
  then show ?case using d no by (simp add: Let_def decimal_value_Cons eq)
qed

lemma parse_field_value:
  assumes "field_value t f = Some v" "NUL \<notin> set f"
  shows "parse pol f t None = (True, v, None)"
proof (cases t)
  case (Char_cell x)
  then show ?thesis using assms
    by (auto simp: parse_char_def split: list.splits)
next
  case (String_cell x)
  then show ?thesis using assms by (auto simp: parse_string_def c_str_no_NUL)
next
  case (Unsigned_cell lim x)
  then have f: "f \<noteq> []" "list_all is_digit f" "decimal_value 0 f \<le> limits_max lim"
    "v = Unsigned_cell lim (decimal_value 0 f)"
    using assms(1) by (auto split: if_splits)
  have "hd f \<noteq> CHR ''-''" using f(1,2) is_digit_not_special [of "hd f"] by (cases f) auto
  then show ?thesis
    using Unsigned_cell f parse_unsigned_loop_value [OF f(2) _ f(3), of pol]
    by (simp add: parse_unsigned_integer_def)
next
  case (Signed_cell lim x)
  then obtain c ds where cd: "f = c # ds" using assms(1) by (cases f) auto
  consider (neg) "c = CHR ''-''" | (pos) "c = CHR ''+''" | (dig) "c \<noteq> CHR ''-''" "c \<noteq> CHR ''+''"
    by blast
  then show ?thesis
  proof cases
    case neg
    then have f: "list_all is_digit ds" "limits_min lim \<le> - decimal_value 0 ds"
      "v = Signed_cell lim (- decimal_value 0 ds)"
      using assms(1) Signed_cell cd by (auto split: if_splits)
    show ?thesis
      using Signed_cell cd neg f(3) parse_negative_loop_value [OF f(1) _ , of 0 lim pol] f(2)
      by (simp add: parse_signed_integer_def)
  next
    case pos
    then have f: "ds \<noteq> []" "list_all is_digit ds" "decimal_value 0 ds \<le> limits_max lim"
      "v = Signed_cell lim (decimal_value 0 ds)"
      using assms(1) Signed_cell cd by (auto split: if_splits)
    have "hd ds \<noteq> CHR ''-''" using f(1,2) is_digit_not_special [of "hd ds"] by (cases ds) auto
    then show ?thesis
      using Signed_cell cd pos f parse_unsigned_loop_value [OF f(2) _ f(3), of pol]
      by (simp add: parse_signed_integer_def parse_unsigned_integer_def)
  next
    case dig
    then have f: "list_all is_digit f" "decimal_value 0 f \<le> limits_max lim"
      "v = Signed_cell lim (decimal_value 0 f)"
      using assms(1) Signed_cell cd by (auto split: if_splits)
    show ?thesis
      using Signed_cell cd dig f(3) parse_unsigned_loop_value [OF f(1) _ f(2), of pol]
      by (simp add: parse_signed_integer_def parse_unsigned_integer_def)
  qed
qed

lemma field_value_type: "field_value t f = Some v \<Longrightarrow> field_value v g = field_value t g"
  by (cases t) (auto split: list.splits if_splits)

subsection \<open>The order of the columns\<close>

text \<open>
  The header names the declared columns in some order \<open>perm\<close>: raw field \<open>p\<close> of a
  line belongs to the declared column \<open>perm ! p\<close>, and \<open>position j perm\<close> is the raw
  field of the declared column \<open>j\<close>.
\<close>

definition position :: "nat \<Rightarrow> nat list \<Rightarrow> nat" where
  "position j perm = length (takeWhile (\<lambda>x. x \<noteq> j) perm)"

lemma position_nth: "distinct perm \<Longrightarrow> p < length perm \<Longrightarrow> position (perm ! p) perm = p"
proof (induction perm arbitrary: p)
  case Nil
  then show ?case by simp
next
  case (Cons a perm)
  then show ?case by (cases p) (auto simp: position_def)
qed

lemma position_less: "j \<in> set perm \<Longrightarrow> position j perm < length perm \<and> perm ! position j perm = j"
  by (induction perm) (auto simp: position_def)

lemma length_store_columns [simp]: "length (store_columns order cs sorted_col) = length sorted_col"
  by (induction order cs sorted_col rule: store_columns.induct) auto

lemma store_columns_other:
  "j \<notin> set perm \<Longrightarrow> store_columns (map int perm) cs sorted_col ! j = sorted_col ! j"
proof (induction perm arbitrary: cs sorted_col)
  case Nil
  then show ?case by simp
next
  case (Cons p perm)
  then show ?case by (cases cs) auto
qed

lemma store_columns_nth:
  "distinct perm \<Longrightarrow> length cs = length perm \<Longrightarrow> \<forall>p \<in> set perm. p < length sorted_col
   \<Longrightarrow> q < length perm
   \<Longrightarrow> store_columns (map int perm) cs sorted_col ! (perm ! q) = Some (cs ! q)"
proof (induction perm arbitrary: cs sorted_col q)
  case Nil
  then show ?case by simp
next
  case (Cons p perm)
  then obtain c cs' where cs: "cs = c # cs'" by (cases cs) auto
  show ?case
  proof (cases q)
    case 0
    then show ?thesis using Cons.prems cs by (simp add: store_columns_other)
  next
    case (Suc q')
    then show ?thesis using Cons.prems cs by (simp add: Cons.IH)
  qed
qed

lemma set_unescape_copy: "set (unescape_copy quote col) \<subseteq> set col"
  by (induction quote col rule: unescape_copy.induct) auto

lemma set_cook: "set (cook tp qp f) \<subseteq> set f"
proof -
  have t: "set (trim tp f) \<subseteq> set f"
  proof
    fix x assume "x \<in> set (trim tp f)"
    then have "x \<in> set (dropWhile (\<lambda>c. is_trim_char c tp)
                        (rev (dropWhile (\<lambda>c. is_trim_char c tp) f)))"
      by (simp add: trim_def)
    then have "x \<in> set (rev (dropWhile (\<lambda>c. is_trim_char c tp) f))"
      by (rule set_dropWhileD)
    then have "x \<in> set (dropWhile (\<lambda>c. is_trim_char c tp) f)" by simp
    then show "x \<in> set f" by (rule set_dropWhileD)
  qed
  have "set (unescape qp g) \<subseteq> set g" for g
  proof (cases qp)
    case (no_quote_escape sep)
    then show ?thesis by simp
  next
    case (double_quote_escape sep quote)
    have "set (butlast (tl g)) \<subseteq> set g"
    proof
      fix x assume "x \<in> set (butlast (tl g))"
      then have "x \<in> set (tl g)" by (rule in_set_butlastD)
      then show "x \<in> set g" by (cases g) auto
    qed
    then show ?thesis
      using double_quote_escape set_unescape_copy [of quote "butlast (tl g)"] by auto
  qed
  then show ?thesis using t unfolding cook_def by blast
qed

lemma parse_helper_all:
  "length vals = length cols
   \<Longrightarrow> \<forall>j<length cols. \<exists>c. row_ptr ! (r + j) = Some c \<and> parse pol c (cols ! j) None = (True, vals ! j, None)
   \<Longrightarrow> parse_helper pol row_ptr names r cols None = (True, vals, None)"
proof (induction cols arbitrary: r vals)
  case Nil
  then show ?case by simp
next
  case (Cons t cols)
  then obtain v vs where vals: "vals = v # vs" by (cases vals) auto
  obtain c where c: "row_ptr ! r = Some c" "parse pol c t None = (True, v, None)"
    using Cons.prems(2) [rule_format, of 0] vals by auto
  have "parse_helper pol row_ptr names (Suc r) cols None = (True, vs, None)"
  proof (rule Cons.IH)
    show "length vs = length cols" using Cons.prems(1) vals by simp
    show "\<forall>j<length cols. \<exists>c. row_ptr ! (Suc r + j) = Some c
            \<and> parse pol c (cols ! j) None = (True, vs ! j, None)"
    proof (intro allI impI)
      fix j assume "j < length cols"
      then show "\<exists>c. row_ptr ! (Suc r + j) = Some c \<and> parse pol c (cols ! j) None = (True, vs ! j, None)"
        using Cons.prems(2) [rule_format, of "Suc j"] vals by simp
    qed
  qed
  then show ?case using c vals by simp
qed

lemma find_not_found_all: "\<forall>i<length found. found ! i \<Longrightarrow> find_not_found found k = None"
proof (induction found arbitrary: k)
  case Nil
  then show ?case by simp
next
  case (Cons f found)
  have "f" using Cons.prems [rule_format, of 0] by simp
  moreover have "\<forall>i<length found. found ! i" using Cons.prems by auto
  ultimately show ?case using Cons.IH by simp
qed

lemma find_col_name_nth:
  "distinct names \<Longrightarrow> p < length names \<Longrightarrow> find_col_name (names ! p) names k = Some (k + p)"
proof (induction names arbitrary: p k)
  case Nil
  then show ?case by simp
next
  case (Cons n names)
  then show ?case by (cases p) (auto simp: nth_eq_iff_index_eq)
qed

lemma resolve_columns_permutation:
  "distinct names \<Longrightarrow> distinct perm \<Longrightarrow> length claimed = length names
   \<Longrightarrow> \<forall>p \<in> set perm. p < length names \<and> \<not> claimed ! p
   \<Longrightarrow> \<forall>i<length names. claimed ! i \<or> i \<in> set perm
   \<Longrightarrow> resolve_columns names ignore_policy (map (\<lambda>p. names ! p) perm) order claimed
         = (True, order @ map int perm, None)"
proof (induction perm arbitrary: order claimed)
  case Nil
  then have "find_not_found claimed 0 = None" by (intro find_not_found_all) simp
  then show ?case by simp
next
  case (Cons p perm)
  have p: "p < length names" "\<not> claimed ! p" using Cons.prems(4) by auto
  have f: "find_col_name (names ! p) names 0 = Some p"
    using find_col_name_nth [OF Cons.prems(1) p(1), of 0] by simp
  have "resolve_columns names ignore_policy (map (\<lambda>p. names ! p) perm) (order @ [int p])
          (claimed[p := True]) = (True, (order @ [int p]) @ map int perm, None)"
  proof (rule Cons.IH [OF Cons.prems(1)])
    show "distinct perm" using Cons.prems(2) by simp
    show "length (claimed[p := True]) = length names" using Cons.prems(3) by simp
    show "\<forall>q \<in> set perm. q < length names \<and> \<not> claimed[p := True] ! q"
      using Cons.prems(2,3,4) by (auto simp: nth_list_update)
    show "\<forall>i<length names. claimed[p := True] ! i \<or> i \<in> set perm"
    proof (intro allI impI)
      fix i assume i: "i < length names"
      show "claimed[p := True] ! i \<or> i \<in> set perm"
        using Cons.prems(5) [rule_format, OF i] Cons.prems(3) i
        by (cases "i = p") (auto simp: nth_list_update)
    qed
  qed
  then show ?case using f p by simp
qed

subsection \<open>Rows\<close>

text \<open>
  A data line is the join of its raw fields, each one written by the grammar of the quote
  policy, and is not a line the comment policy skips. The text of a file is its lines, each
  followed by its ending. \<open>typed_row\<close> relates the raw fields of a line to the values of
  the output variables \<open>cols\<close>: variable \<open>j\<close> gets the value of the cooked field at the
  position of column \<open>j\<close>.
\<close>

definition data_line_ok :: "quote_policy \<Rightarrow> comment_policy \<Rightarrow> string list \<Rightarrow> string \<Rightarrow> bool" where
  "data_line_ok qp cp fs e =
     (fs \<noteq> [] \<and> list_all (field_ok qp) fs \<and> text_ok (join (separator qp) fs) e
      \<and> \<not> is_comment cp (join (separator qp) fs))"

fun file_text :: "quote_policy \<Rightarrow> (string list \<times> string) list \<Rightarrow> string" where
  "file_text qp [] = []"
| "file_text qp ((fs, e) # ls) = join (separator qp) fs @ e @ file_text qp ls"

fun endings_ok :: "quote_policy \<Rightarrow> (string list \<times> string) list \<Rightarrow> string \<Rightarrow> bool" where
  "endings_ok qp [] tail = True"
| "endings_ok qp ((fs, e) # ls) tail =
     ((eol_ok e \<or> (e = [] \<and> ls = [] \<and> tail = [] \<and> join (separator qp) fs \<noteq> []))
      \<and> endings_ok qp ls tail)"

definition typed_row ::
  "char list \<Rightarrow> quote_policy \<Rightarrow> nat list \<Rightarrow> cell list \<Rightarrow> string list \<Rightarrow> cell list \<Rightarrow> bool" where
  "typed_row tp qp perm cols fs vals =
     (map (\<lambda>j. field_value (cols ! j) (cook tp qp (fs ! position j perm))) [0 ..< length cols]
        = map Some vals)"

text \<open>
  The parameters of a reader, and the state of a reader that has read its header and \<open>k\<close>
  lines and has \<open>content\<close> left to read.
\<close>

record csv_config =
  cfg_trim :: "char list"
  cfg_quote :: quote_policy
  cfg_overflow :: overflow_policy
  cfg_comment :: comment_policy
  cfg_names :: "string list"
  cfg_perm :: "nat list"
  cfg_file_name :: string

definition ready :: "csv_config \<Rightarrow> CSVReader \<Rightarrow> string \<Rightarrow> nat \<Rightarrow> bool" where
  "ready c r content k =
     (trim_policy r = cfg_trim c \<and> quote_policy r = cfg_quote c \<and> overflow_policy r = cfg_overflow c
      \<and> comment_policy r = cfg_comment c \<and> column_names r = cfg_names c
      \<and> column_count r = length (cfg_names c) \<and> col_order r = map int (cfg_perm c)
      \<and> length (row r) = length (cfg_names c) \<and> file_name (in_reader r) = cfg_file_name c
      \<and> streaming (in_reader r) \<and> pending (in_reader r) = content
      \<and> file_line (in_reader r) = of_nat k)"

definition config_ok :: "csv_config \<Rightarrow> bool" where
  "config_ok c = (policy_ok (cfg_quote c) \<and> distinct (cfg_names c) \<and> distinct (cfg_perm c)
      \<and> set (cfg_perm c) = {..<length (cfg_names c)})"

text \<open>
  \<open>n\<close> successive calls of \<open>read_row\<close> on the same output variables and the same error
  slot, with the return value, the variables and the error slot after each call.
\<close>

fun read_rows ::
  "nat \<Rightarrow> CSVReader \<Rightarrow> error option \<Rightarrow> cell list
     \<Rightarrow> (bool \<times> cell list \<times> error option) list \<times> CSVReader" where
  "read_rows 0 r err cols = ([], r)"
| "read_rows (Suc n) r err cols =
     (case read_row r err cols of
        (ok, r', cols', err') \<Rightarrow>
          (case read_rows n r' err' cols' of
             (results, r'') \<Rightarrow> ((ok, cols', err') # results, r'')))"

lemma config_perm_length: "config_ok c \<Longrightarrow> length (cfg_perm c) = length (cfg_names c)"
  unfolding config_ok_def by (metis card_lessThan distinct_card)

lemma typed_row_nth:
  "typed_row tp qp perm cols fs vals \<Longrightarrow> length vals = length cols
     \<and> (\<forall>j<length cols. field_value (cols ! j) (cook tp qp (fs ! position j perm)) = Some (vals ! j))"
proof -
  assume a: "typed_row tp qp perm cols fs vals"
  then have len: "length vals = length cols"
    unfolding typed_row_def by (metis length_map length_upt minus_nat.diff_0)
  have "field_value (cols ! j) (cook tp qp (fs ! position j perm)) = Some (vals ! j)"
    if "j < length cols" for j
  proof -
    have "map (\<lambda>j. field_value (cols ! j) (cook tp qp (fs ! position j perm))) [0 ..< length cols] ! j
            = map Some vals ! j"
      using a by (simp add: typed_row_def)
    then show ?thesis using that len by simp
  qed
  then show ?thesis using len by simp
qed

lemma typed_row_type:
  assumes "typed_row tp qp perm cols fs vals"
  shows "typed_row tp qp perm vals gs ws = typed_row tp qp perm cols gs ws"
proof -
  note t = typed_row_nth [OF assms]
  have "field_value (vals ! j) g = field_value (cols ! j) g" if "j < length cols" for j g
    using t that field_value_type by blast
  then have "map (\<lambda>j. field_value (vals ! j) (cook tp qp (gs ! position j perm))) [0 ..< length vals]
           = map (\<lambda>j. field_value (cols ! j) (cook tp qp (gs ! position j perm))) [0 ..< length cols]"
    using t by (intro map_cong) auto
  then show ?thesis unfolding typed_row_def by (rule arg_cong)
qed

lemma good_row:
  assumes "config_ok c" "ready c r (join (separator (cfg_quote c)) fs @ e @ rest) k"
    and "data_line_ok (cfg_quote c) (cfg_comment c) fs e" "length fs = length (cfg_names c)"
    and "eol_ok e \<or> (e = [] \<and> rest = [] \<and> join (separator (cfg_quote c)) fs \<noteq> [])"
    and "typed_row (cfg_trim c) (cfg_quote c) (cfg_perm c) cols fs vals"
    and "length cols = length (cfg_names c)"
  shows "\<exists>r'. read_row r None cols = (True, r', vals, None) \<and> ready c r' rest (Suc k)"
proof -
  let ?qp = "cfg_quote c" and ?tp = "cfg_trim c" and ?perm = "cfg_perm c"
  let ?l = "join (separator ?qp) fs"
  have rd: "trim_policy r = ?tp" "quote_policy r = ?qp" "overflow_policy r = cfg_overflow c"
    "comment_policy r = cfg_comment c" "column_names r = cfg_names c" "col_order r = map int ?perm"
    "length (row r) = length (cfg_names c)" "streaming (in_reader r)"
    "pending (in_reader r) = ?l @ e @ rest" "file_line (in_reader r) = of_nat k"
    "file_name (in_reader r) = cfg_file_name c" "column_count r = length (cfg_names c)"
    using assms(2) by (simp_all add: ready_def)
  have su: "policy_ok ?qp" "distinct ?perm" "set ?perm = {..<length (cfg_names c)}"
    using assms(1) by (simp_all add: config_ok_def)
  have plen: "length ?perm = length (cfg_names c)" by (rule config_perm_length [OF assms(1)])
  have dl: "fs \<noteq> []" "list_all (field_ok ?qp) fs" "text_ok ?l e" "\<not> is_comment (cfg_comment c) ?l"
    using assms(3) by (simp_all add: data_line_ok_def)
  obtain s' where s': "read_row_line (cfg_comment c) (in_reader r) None = (Some ?l, s', None)"
    "streaming s'" "pending s' = rest" "file_line s' = file_line (in_reader r) + 1"
    "file_name s' = file_name (in_reader r)"
    using read_row_line_text [OF rd(8) rd(9) dl(3) assms(5) dl(4)] by blast
  define row' where "row' = store_columns (map int ?perm) (map (cook ?tp ?qp) fs) (row r)"
  have pl: "parse_line ?tp ?qp ?l (row r) (map int ?perm) None = (True, row', None)"
    using parse_line_loop_fields [OF su(1) dl(2), of ?tp "map int ?perm" "row r"] dl(1) assms(4) plen
    by (simp add: parse_line_def line_of_def row'_def)
  note t = typed_row_nth [OF assms(6)]
  have cell: "\<exists>col. row' ! (0 + j) = Some col
        \<and> parse (cfg_overflow c) col (cols ! j) None = (True, vals ! j, None)"
    if j: "j < length cols" for j
  proof -
    have jp: "j \<in> set ?perm" using j su(3) assms(7) by simp
    let ?q = "position j ?perm"
    have q: "?q < length ?perm" "?perm ! ?q = j" using position_less [OF jp] by simp_all
    have "row' ! (?perm ! ?q) = Some (map (cook ?tp ?qp) fs ! ?q)"
      unfolding row'_def
      using su(2,3) rd(7) assms(4) plen q(1)
      by (intro store_columns_nth) auto
    then have r: "row' ! j = Some (cook ?tp ?qp (fs ! ?q))"
      using q assms(4) plen by simp
    have "field_ok ?qp (fs ! ?q)" using dl(2) q(1) assms(4) plen by (simp add: list_all_length)
    then have "NUL \<notin> set (fs ! ?q)" using field_ok_no_NUL su(1) by blast
    then have "NUL \<notin> set (cook ?tp ?qp (fs ! ?q))" using set_cook by fastforce
    then have "parse (cfg_overflow c) (cook ?tp ?qp (fs ! ?q)) (cols ! j) None = (True, vals ! j, None)"
      using t j by (intro parse_field_value) auto
    then show ?thesis using r by simp
  qed
  have ph: "parse_helper (cfg_overflow c) row' (cfg_names c) 0 cols None = (True, vals, None)"
    using t cell by (intro parse_helper_all) auto
  let ?r' = "r\<lparr>in_reader := s', row := row'\<rparr>"
  have "read_row r None cols = (True, ?r', vals, None)"
    using s'(1) pl ph by (simp add: read_row_def rd)
  moreover have "ready c ?r' rest (Suc k)"
    using rd s' by (simp add: ready_def row'_def)
  ultimately show ?thesis by blast
qed


lemma end_of_rows:
  assumes "ready c r [] k"
  shows "read_rows m r None cols = (replicate m (False, cols, None), r)"
proof (induction m)
  case 0
  show ?case by simp
next
  case (Suc m)
  have "read_row_line (comment_policy r) (in_reader r) None = (None, in_reader r, None)"
    using assms by (intro read_row_line_end) (simp_all add: ready_def)
  then have "read_row r None cols = (False, r, cols, None)"
    by (simp add: read_row_def)
  then show ?case using Suc by simp
qed

lemma read_rows_add:
  "read_rows (m + n) r err cols =
     (case read_rows m r err cols of
        (res, r') \<Rightarrow>
          (case read_rows n r' (last (err # map (\<lambda>x. snd (snd x)) res))
                  (last (cols # map (\<lambda>x. fst (snd x)) res)) of
             (res', r'') \<Rightarrow> (res @ res', r'')))"
proof (induction m arbitrary: r err cols)
  case 0
  show ?case by (simp split: prod.splits)
next
  case (Suc m)
  show ?case
    by (simp add: Suc split: prod.splits)
qed

lemma good_rows:
  assumes "config_ok c"
  shows "ready c r (file_text (cfg_quote c) rows @ tail) k
     \<Longrightarrow> list_all (\<lambda>(fs, e). data_line_ok (cfg_quote c) (cfg_comment c) fs e
                         \<and> length fs = length (cfg_names c)) rows
     \<Longrightarrow> endings_ok (cfg_quote c) rows tail
     \<Longrightarrow> list_all2 (\<lambda>(fs, e) vals. typed_row (cfg_trim c) (cfg_quote c) (cfg_perm c) cols fs vals) rows table
     \<Longrightarrow> length cols = length (cfg_names c)
     \<Longrightarrow> \<exists>r'. read_rows (length rows) r None cols = (map (\<lambda>vals. (True, vals, None)) table, r')
            \<and> ready c r' tail (k + length rows)"
proof (induction rows arbitrary: r k cols table)
  case Nil
  then show ?case by simp
next
  case (Cons row rows)
  obtain fs e where row: "row = (fs, e)" by (cases row) auto
  obtain vals table' where table: "table = vals # table'"
    using Cons.prems(4) by (cases table) auto
  have typed: "typed_row (cfg_trim c) (cfg_quote c) (cfg_perm c) cols fs vals"
    and typed': "list_all2 (\<lambda>(fs, e) vals. typed_row (cfg_trim c) (cfg_quote c) (cfg_perm c) cols fs vals) rows table'"
    using Cons.prems(4) row table by simp_all
  have eol: "eol_ok e \<or> (e = [] \<and> file_text (cfg_quote c) rows @ tail = []
               \<and> join (separator (cfg_quote c)) fs \<noteq> [])"
    using Cons.prems(3) row by auto
  have rdy: "ready c r (join (separator (cfg_quote c)) fs @ e @ file_text (cfg_quote c) rows @ tail) k"
    using Cons.prems(1) row by simp
  obtain r1 where r1: "read_row r None cols = (True, r1, vals, None)"
    "ready c r1 (file_text (cfg_quote c) rows @ tail) (Suc k)"
    using good_row [OF assms rdy _ _ eol typed Cons.prems(5)] Cons.prems(2) row by auto
  have len: "length vals = length (cfg_names c)"
    using typed_row_nth [OF typed] Cons.prems(5) by simp
  have typed'': "list_all2 (\<lambda>(fs, e) ws. typed_row (cfg_trim c) (cfg_quote c) (cfg_perm c) vals fs ws) rows table'"
    using typed' typed_row_type [OF typed] by (simp add: case_prod_beta)
  obtain r' where r': "read_rows (length rows) r1 None vals = (map (\<lambda>vals. (True, vals, None)) table', r')"
    "ready c r' tail (Suc k + length rows)"
    using Cons.IH [OF r1(2) _ _ typed'' len] Cons.prems(2,3) row by auto
  show ?case using r1(1) r' table by simp
qed

lemma file_text_append: "file_text qp (xs @ ys) = file_text qp xs @ file_text qp ys"
  by (induction xs) auto

lemma endings_ok_append:
  "endings_ok qp (xs @ ys) tail \<Longrightarrow> endings_ok qp xs (file_text qp ys @ tail) \<and> endings_ok qp ys tail"
  by (induction xs) auto

lemma good_header:
  assumes "config_ok c" "data_line_ok (cfg_quote c) (cfg_comment c) hs he"
    and "map (cook (cfg_trim c) (cfg_quote c)) hs = map (\<lambda>p. cfg_names c ! p) (cfg_perm c)"
    and "eol_ok he \<or> (he = [] \<and> rest = [] \<and> join (separator (cfg_quote c)) hs \<noteq> [])"
    and "data = join (separator (cfg_quote c)) hs @ he @ rest
         \<or> (data = [CHR 0xEF, CHR 0xBB, CHR 0xBF] @ join (separator (cfg_quote c)) hs @ he @ rest)"
    and "take 3 data = [CHR 0xEF, CHR 0xBB, CHR 0xBF]
         \<longrightarrow> data = [CHR 0xEF, CHR 0xBB, CHR 0xBF] @ join (separator (cfg_quote c)) hs @ he @ rest"
  shows "\<exists>r'. read_header ignore_policy None (cfg_names c)
              (CSVReader_new (length (cfg_names c)) (cfg_trim c) (cfg_quote c) (cfg_overflow c)
                 (cfg_comment c) u name data) = (True, r', None)
          \<and> ready (c\<lparr>cfg_file_name := truncate_file_name name\<rparr>) r' rest 1"
proof -
  let ?qp = "cfg_quote c" and ?tp = "cfg_trim c" and ?perm = "cfg_perm c" and ?names = "cfg_names c"
  let ?l = "join (separator ?qp) hs"
  let ?r0 = "CSVReader_new (length ?names) ?tp ?qp (cfg_overflow c) (cfg_comment c) u name data"
  let ?s0 = "init u name data"
  have su: "policy_ok ?qp" "distinct ?names" "distinct ?perm" "set ?perm = {..<length ?names}"
    using assms(1) by (simp_all add: config_ok_def)
  have dl: "hs \<noteq> []" "list_all (field_ok ?qp) hs" "text_ok ?l he" "\<not> is_comment (cfg_comment c) ?l"
    using assms(2) by (simp_all add: data_line_ok_def)
  have pend: "pending ?s0 = ?l @ he @ rest"
    using assms(5,6) by (auto simp: pending_init)
  have fl: "file_line ?s0 = 0" "file_name ?s0 = truncate_file_name name"
    by (simp_all add: init_def LineReader_new_def read_def Let_def)
  obtain s' where s': "read_header_line (cfg_comment c) ?s0 None = (Some ?l, s', None)"
    "streaming s'" "pending s' = rest" "file_line s' = file_line ?s0 + 1"
    "file_name s' = file_name ?s0"
    using read_header_line_text [OF streaming_init pend dl(3) assms(4) dl(4)] by blast
  have "parse_header_loop ?tp ?qp ?names ignore_policy (Some ?l) [] (replicate (length ?names) False)
          = resolve_columns ?names ignore_policy (map (\<lambda>p. ?names ! p) ?perm) []
              (replicate (length ?names) False)"
    using parse_header_loop_fields [OF su(1) dl(2), of ?tp ?names ignore_policy "[]"] dl(1) assms(3)
    by (simp add: line_of_def)
  also have "\<dots> = (True, [] @ map int ?perm, None)"
    using su by (intro resolve_columns_permutation) auto
  finally have ph: "parse_header_line (length ?names) ?tp ?qp ?l (map int [0 ..< length ?names])
      ?names ignore_policy None = (True, map int ?perm, None)"
    by (simp add: parse_header_line_def)
  let ?r' = "?r0\<lparr>column_names := ?names, in_reader := s', col_order := map int ?perm\<rparr>"
  have "read_header ignore_policy None ?names ?r0 = (True, ?r', None)"
    using s'(1) ph by (simp add: read_header_def CSVReader_new_def)
  moreover have "ready (c\<lparr>cfg_file_name := truncate_file_name name\<rparr>) ?r' rest 1"
    using s' fl by (simp add: ready_def CSVReader_new_def)
  ultimately show ?thesis by blast
qed

subsection \<open>Files\<close>

text \<open>
  A well-formed file for a reader: an optional byte order mark, a header line whose cooked
  fields are the declared names in the order \<open>cfg_perm\<close>, then data lines with as many
  fields as declared columns, then \<open>tail\<close>. \<open>open_csv\<close> constructs the reader on the data
  and reads the header.
\<close>

definition byte_order_mark :: string where
  "byte_order_mark = [CHR 0xEF, CHR 0xBB, CHR 0xBF]"

definition well_formed ::
  "csv_config \<Rightarrow> string list \<times> string \<Rightarrow> (string list \<times> string) list \<Rightarrow> string \<Rightarrow> string \<Rightarrow> bool" where
  "well_formed c header rows tail data =
     (config_ok c
      \<and> data_line_ok (cfg_quote c) (cfg_comment c) (fst header) (snd header)
      \<and> map (cook (cfg_trim c) (cfg_quote c)) (fst header) = map (\<lambda>p. cfg_names c ! p) (cfg_perm c)
      \<and> list_all (\<lambda>(fs, e). data_line_ok (cfg_quote c) (cfg_comment c) fs e
                        \<and> length fs = length (cfg_names c)) rows
      \<and> endings_ok (cfg_quote c) (header # rows) tail
      \<and> (data = file_text (cfg_quote c) (header # rows) @ tail \<and> take 3 data \<noteq> byte_order_mark
         \<or> data = byte_order_mark @ file_text (cfg_quote c) (header # rows) @ tail))"

definition open_csv ::
  "csv_config \<Rightarrow> ignore_column \<Rightarrow> (int \<Rightarrow> char) \<Rightarrow> string \<Rightarrow> string
     \<Rightarrow> bool \<times> CSVReader \<times> error option" where
  "open_csv c ignore_policy uninitialized name data =
     read_header ignore_policy None (cfg_names c)
       (CSVReader_new (length (cfg_names c)) (cfg_trim c) (cfg_quote c) (cfg_overflow c)
          (cfg_comment c) uninitialized name data)"

lemma read_rows_then:
  assumes "read_rows m r None cols = (res, r')"
    and "read_rows n r' None (last (cols # map (\<lambda>x. fst (snd x)) res)) = (res', r'')"
    and "last (None # map (\<lambda>x. snd (snd x)) res) = None"
  shows "read_rows (m + n) r None cols = (res @ res', r'')"
  unfolding read_rows_add assms(1) using assms(2,3) by (simp del: last.simps)


lemma after_rows:
  assumes "well_formed c header rows tail data"
    and "list_all2 (\<lambda>(fs, e) vals. typed_row (cfg_trim c) (cfg_quote c) (cfg_perm c) cols fs vals) rows table"
    and "length cols = length (cfg_names c)"
  shows "\<exists>r1 r2. open_csv c ignore_policy u name data = (True, r1, None)
           \<and> read_rows (length rows) r1 None cols = (map (\<lambda>vals. (True, vals, None)) table, r2)
           \<and> ready (c\<lparr>cfg_file_name := truncate_file_name name\<rparr>) r2 tail (Suc (length rows))"
proof -
  let ?c = "c\<lparr>cfg_file_name := truncate_file_name name\<rparr>"
  obtain hs he where header: "header = (hs, he)" by (cases header) auto
  let ?rest = "file_text (cfg_quote c) rows @ tail"
  have ok: "config_ok c" "config_ok ?c" using assms(1) by (simp_all add: well_formed_def config_ok_def)
  have h: "data_line_ok (cfg_quote c) (cfg_comment c) hs he"
    "map (cook (cfg_trim c) (cfg_quote c)) hs = map (\<lambda>p. cfg_names c ! p) (cfg_perm c)"
    using assms(1) header by (simp_all add: well_formed_def)
  have e: "endings_ok (cfg_quote c) rows tail"
    "eol_ok he \<or> (he = [] \<and> ?rest = [] \<and> join (separator (cfg_quote c)) hs \<noteq> [])"
    using assms(1) header by (auto simp: well_formed_def)
  have d: "data = join (separator (cfg_quote c)) hs @ he @ ?rest
         \<or> data = [CHR 0xEF, CHR 0xBB, CHR 0xBF] @ join (separator (cfg_quote c)) hs @ he @ ?rest"
    "take 3 data = [CHR 0xEF, CHR 0xBB, CHR 0xBF]
         \<longrightarrow> data = [CHR 0xEF, CHR 0xBB, CHR 0xBF] @ join (separator (cfg_quote c)) hs @ he @ ?rest"
    using assms(1) header by (auto simp: well_formed_def byte_order_mark_def)
  obtain r1 where r1: "open_csv c ignore_policy u name data = (True, r1, None)"
    "ready ?c r1 ?rest 1"
    using good_header [OF ok(1) h e(2) d, of ignore_policy u name] unfolding open_csv_def by blast
  have rows: "list_all (\<lambda>(fs, e). data_line_ok (cfg_quote ?c) (cfg_comment ?c) fs e
                        \<and> length fs = length (cfg_names ?c)) rows"
    using assms(1) by (simp add: well_formed_def)
  obtain r2 where r2: "read_rows (length rows) r1 None cols = (map (\<lambda>vals. (True, vals, None)) table, r2)"
    "ready ?c r2 tail (1 + length rows)"
    using good_rows [OF ok(2), of r1 rows tail 1 cols table] r1(2) rows e(1) assms(2,3) by auto
  show ?thesis using r1(1) r2 by auto
qed

text \<open>
  Over an in-memory range: on a well-formed file whose header names the declared columns,
  whose data lines have one field per column and whose fields denote values of the types
  of the output variables, the header is read without error, the first calls of \<open>read_row\<close>
  return true with the values of the rows in the order of the file, and every later call
  returns false, leaves the variables at the values of the last row and leaves the error
  slot empty.
\<close>

lemma read_row_delivers_rows:
  assumes "well_formed c header rows [] data"
    and "list_all2 (\<lambda>(fs, e) vals. typed_row (cfg_trim c) (cfg_quote c) (cfg_perm c) cols fs vals) rows table"
    and "length cols = length (cfg_names c)"
  shows "fst (open_csv c ignore_policy u name data)
     \<and> snd (snd (open_csv c ignore_policy u name data)) = None
     \<and> fst (read_rows (length rows + m) (fst (snd (open_csv c ignore_policy u name data))) None cols)
         = map (\<lambda>vals. (True, vals, None)) table @ replicate m (False, last (cols # table), None)"
proof -
  obtain r1 r2 where r: "open_csv c ignore_policy u name data = (True, r1, None)"
    "read_rows (length rows) r1 None cols = (map (\<lambda>vals. (True, vals, None)) table, r2)"
    "ready (c\<lparr>cfg_file_name := truncate_file_name name\<rparr>) r2 [] (Suc (length rows))"
    using after_rows [OF assms] by blast
  have e: "read_rows m r2 None (last (cols # table)) = (replicate m (False, last (cols # table), None), r2)"
    by (rule end_of_rows [OF r(3)])
  have l1: "last (None # map (\<lambda>x. snd (snd x)) (map (\<lambda>vals. (True, vals, None)) table)) = None"
    by (induction table) auto
  have l2: "last (cols # map (\<lambda>x. fst (snd x)) (map (\<lambda>vals. (True, vals, None)) table))
      = last (cols # table)"
    by (simp add: o_def)
  have "read_rows (length rows + m) r1 None cols
      = (map (\<lambda>vals. (True, vals, None)) table @ replicate m (False, last (cols # table), None), r2)"
    by (rule read_rows_then [OF r(2) _ l1]) (simp only: l2 e)
  then show ?thesis using r(1) by simp
qed


subsection \<open>A file of two columns\<close>

definition two_columns :: csv_config where
  "two_columns =
     \<lparr>cfg_trim = [CHR '' '', CHR 0x09], cfg_quote = no_quote_escape (CHR '',''),
      cfg_overflow = set_to_max_on_overflow, cfg_comment = no_comment,
      cfg_names = [''a'', ''b''], cfg_perm = [1, 0], cfg_file_name = ''''\<rparr>"

definition two_columns_cells :: "cell list" where
  "two_columns_cells = [Unsigned_cell (unsigned_limits 32) 0, String_cell '''']"

lemmas sample_eval =
  well_formed_def config_ok_def data_line_ok_def text_ok_def eol_ok_def
  field_ok_no_quote typed_row_def position_def cook_def trim_def
  NUL_def block_len_def byte_order_mark_def is_digit_def digit_of_def
  decimal_value_def unsigned_limits_def two_columns_def two_columns_cells_def lessThan_Suc

lemma read_row_delivers_rows_example:
  "well_formed two_columns ([''b'', ''a''], [CHR 0x0A])
     [([''x'', ''1''], [CHR 0x0D, CHR 0x0A]), ([''y'', ''2''], [])] []
     (''b,a'' @ [CHR 0x0A] @ ''x,1'' @ [CHR 0x0D, CHR 0x0A] @ ''y,2'')
   \<and> fst (read_rows 4
       (fst (snd (open_csv two_columns ignore_no_column zeroed ''1.csv''
          (''b,a'' @ [CHR 0x0A] @ ''x,1'' @ [CHR 0x0D, CHR 0x0A] @ ''y,2''))))
       None two_columns_cells)
     = [(True, [Unsigned_cell (unsigned_limits 32) 1, String_cell ''x''], None),
        (True, [Unsigned_cell (unsigned_limits 32) 2, String_cell ''y''], None),
        (False, [Unsigned_cell (unsigned_limits 32) 2, String_cell ''y''], None),
        (False, [Unsigned_cell (unsigned_limits 32) 2, String_cell ''y''], None)]"
proof -
  let ?rows = "[([''x'', ''1''], [CHR 0x0D, CHR 0x0A]), ([''y'', ''2''], [])]"
  let ?data = "''b,a'' @ [CHR 0x0A] @ ''x,1'' @ [CHR 0x0D, CHR 0x0A] @ ''y,2''"
  let ?table = "[[Unsigned_cell (unsigned_limits 32) 1, String_cell ''x''],
                 [Unsigned_cell (unsigned_limits 32) 2, String_cell ''y'']]"
  have h1: "well_formed two_columns ([''b'', ''a''], [CHR 0x0A]) ?rows [] ?data"
    by (simp add: sample_eval)
  have h2: "list_all2 (\<lambda>(fs, e) vals. typed_row (cfg_trim two_columns) (cfg_quote two_columns)
              (cfg_perm two_columns) two_columns_cells fs vals) ?rows ?table"
    by (simp add: sample_eval)
  have h3: "length two_columns_cells = length (cfg_names two_columns)"
    by (simp add: sample_eval)
  have twice: "replicate 2 x = [x, x]" for x :: "bool \<times> cell list \<times> error option"
    by (simp add: numeral_2_eq_2)
  have four: "Suc (Suc (Suc (Suc 0))) = 4" by simp
  show ?thesis
    using read_row_delivers_rows [OF h1 h2 h3, of ignore_no_column zeroed "''1.csv''" 2] h1
    by (simp add: twice four del: read_rows.simps)
qed


section \<open>A byte source that delivers less than asked for\<close>

text \<open>
  A file of one column \<open>a\<close> with the rows \<open>1\<close> and \<open>2\<close>, as an in-memory range and as a
  source of the client that delivers the header and the first row at the first call of
  \<open>read\<close> and the second row at the next one. \<open>one_column_header\<close> is \<open>read_header\<close> on
  the reader constructed over a source, \<open>one_column_reader\<close> the reader it leaves.
\<close>

definition one_column_header :: "ByteSourceBase \<Rightarrow> bool \<times> CSVReader \<times> error option" where
  "one_column_header src =
     read_header ignore_no_column None [''a'']
       (CSVReader_of_source 1 [CHR '' '', CHR 0x09] (no_quote_escape (CHR '','')) set_to_max_on_overflow
          no_comment zeroed ''5.csv'' src)"

definition one_column_reader :: "ByteSourceBase \<Rightarrow> CSVReader" where
  "one_column_reader src = fst (snd (one_column_header src))"

definition one_column_file :: string where
  "one_column_file = ''a'' @ [CHR 0x0A] @ ''1'' @ [CHR 0x0A] @ ''2'' @ [CHR 0x0A]"

definition one_column_pieces :: "string list" where
  "one_column_pieces = [''a'' @ [CHR 0x0A] @ ''1'' @ [CHR 0x0A], ''2'' @ [CHR 0x0A]]"

lemma CSVReader_of_in_memory:
  "CSVReader_of_source n tp qp op cp u name (NonOwningStringByteSource data)
     = CSVReader_new n tp qp op cp u name data"
  by (simp add: CSVReader_of_source_def CSVReader_new_def init_def)

text \<open>
  C1. The rows of a well-formed file are not all delivered when the byte source delivers
  less than asked for before its data ends, which the interface \<open>ByteSourceBase\<close> allows
  (\<open>read\<close> writes at most \<open>size\<close> bytes and returns \<open>0\<close> when the data has run out): \<open>init\<close>
  takes a first read of less than \<open>2 * block_len\<close> bytes for the whole data and never reads
  again. Over the in-memory range the three calls of \<open>read_row\<close> deliver the rows \<open>1\<close> and
  \<open>2\<close> and then the end; over the source in two pieces, the same bytes, they deliver the
  row \<open>1\<close> and then the end, with no error: the row \<open>2\<close> is lost.
\<close>

theorem short_read_loses_rows:
  "concat one_column_pieces = one_column_file
   \<and> fst (one_column_header (NonOwningStringByteSource one_column_file)) = True
   \<and> snd (snd (one_column_header (NonOwningStringByteSource one_column_file))) = None
   \<and> fst (one_column_header (ClientByteSource one_column_pieces)) = True
   \<and> snd (snd (one_column_header (ClientByteSource one_column_pieces))) = None
   \<and> fst (read_rows 3 (one_column_reader (NonOwningStringByteSource one_column_file)) None
            [Unsigned_cell (unsigned_limits 32) 0])
       = [(True, [Unsigned_cell (unsigned_limits 32) 1], None),
          (True, [Unsigned_cell (unsigned_limits 32) 2], None),
          (False, [Unsigned_cell (unsigned_limits 32) 2], None)]
   \<and> fst (read_rows 3 (one_column_reader (ClientByteSource one_column_pieces)) None
            [Unsigned_cell (unsigned_limits 32) 0])
       = [(True, [Unsigned_cell (unsigned_limits 32) 1], None),
          (False, [Unsigned_cell (unsigned_limits 32) 1], None),
          (False, [Unsigned_cell (unsigned_limits 32) 1], None)]"
  by (simp add: one_column_reader_def one_column_header_def one_column_file_def
      one_column_pieces_def reader_eval zeroed_def
      numeral_3_eq_3 parse_unsigned_integer_def is_digit_def digit_of_def unsigned_limits_def)

end
